theory Spec2Isabelle
  imports Main "HOL-Library.Char_ord" "HOL-Library.Sublist"
begin

section \<open>JavaScript strings and character classes\<close>

text \<open>
  A JavaScript string is modelled as a \<open>string\<close> (a list of 8-bit characters, read as
  the code points U+0000 .. U+00FF). All patterns of the parser are ASCII.
\<close>

definition cc :: "char \<Rightarrow> nat" where
  "cc c = of_char c"

text \<open>\<open>\s\<close> (and what \<open>trim\<close> strips): TAB, LF, VT, FF, CR, SPACE, NBSP.\<close>

definition isSpace :: "char \<Rightarrow> bool" where
  "isSpace c = (c \<in> set [CHR 0x09, CHR 0x0A, CHR 0x0B, CHR 0x0C, CHR 0x0D, CHR 0x20, CHR 0xA0])"

definition isDigit :: "char \<Rightarrow> bool" where
  "isDigit c = (CHR ''0'' \<le> c \<and> c \<le> CHR ''9'')"

definition isUpper :: "char \<Rightarrow> bool" where
  "isUpper c = (CHR ''A'' \<le> c \<and> c \<le> CHR ''Z'')"

definition isLower :: "char \<Rightarrow> bool" where
  "isLower c = (CHR ''a'' \<le> c \<and> c \<le> CHR ''z'')"

text \<open>\<open>\w\<close> is \<open>[A-Za-z0-9_]\<close>.\<close>

definition isWord :: "char \<Rightarrow> bool" where
  "isWord c = (isUpper c \<or> isLower c \<or> isDigit c \<or> c = CHR ''_'')"

text \<open>Line terminators (for \<open>.\<close>, and for \<open>^\<close> and \<open>$\<close> under the flag m): LF and CR.\<close>

definition isLineTerm :: "char \<Rightarrow> bool" where
  "isLineTerm c = (c = CHR 0x0A \<or> c = CHR 0x0D)"

text \<open>The two cases of an ASCII letter differ in the bit of value 32. Under the flag i
  a pattern character matches a character of either case; all patterns here are ASCII,
  and a character beyond ASCII never matches an ASCII pattern character.\<close>

definition flipCase :: "char \<Rightarrow> char" where
  "flipCase c = (case c of Char b0 b1 b2 b3 b4 b5 b6 b7 \<Rightarrow> Char b0 b1 b2 b3 b4 (\<not> b5) b6 b7)"

definition swapCase :: "char \<Rightarrow> char" where
  "swapCase c = (if isUpper c \<or> isLower c then flipCase c else c)"

definition toLower :: "char \<Rightarrow> char" where
  "toLower c = (if isUpper c then flipCase c else c)"

datatype citem = C char | R char char | S | NS | D | W

fun citem_mem :: "citem \<Rightarrow> char \<Rightarrow> bool" where
  "citem_mem (C x) c = (c = x)"
| "citem_mem (R lo hi) c = (lo \<le> c \<and> c \<le> hi)"
| "citem_mem S c = isSpace c"
| "citem_mem NS c = (\<not> isSpace c)"
| "citem_mem D c = isDigit c"
| "citem_mem W c = isWord c"

record flags =
  ignoreCase :: bool
  multiline :: bool
  dotAll :: bool

definition cls_mem :: "flags \<Rightarrow> citem list \<Rightarrow> char \<Rightarrow> bool" where
  "cls_mem fl cs c =
     ((\<exists>i \<in> set cs. citem_mem i c) \<or>
      (ignoreCase fl \<and> (\<exists>i \<in> set cs. citem_mem i (swapCase c))))"

definition chr_eq :: "flags \<Rightarrow> char \<Rightarrow> char \<Rightarrow> bool" where
  "chr_eq fl x c = (c = x \<or> (ignoreCase fl \<and> swapCase c = x))"

section \<open>A backtracking regular-expression matcher\<close>

datatype regex =
    Lit string
  | Cls "citem list"
  | NCls "citem list"
  | Dot
  | Seq regex regex
  | Alt regex regex
  | Star bool regex
  | Grp nat regex
  | Bref nat
  | Bol
  | Eol
  | WordB
  | NBehind "citem list"
  | NAhead "citem list"

text \<open>
  A pattern is a term of the type \<open>regex\<close>: literal text, a character class \<open>[...]\<close> or
  \<open>[^...]\<close>, the dot, sequence, alternation, the star (greedy when its flag is
  \<open>True\<close>, lazy otherwise), a numbered capture group, a backreference, the assertions
  \<open>^\<close>, \<open>$\<close> and \<open>\b\<close>, and the negative lookbehind and lookahead
  \<open>(?<![...])\<close> and \<open>(?![...])\<close> on one character, the only lookarounds of the parser.

  The state of a match is the input already passed (reversed, nearest character first),
  the input still ahead, and the captures so far, the latest first. \<open>ms fl r st\<close> is the
  list of the states in which a match of \<open>r\<close> from \<open>st\<close> can end, in the order in which
  a backtracking matcher tries them: the head of the list is the match that JavaScript
  finds. An iteration of a star that consumes nothing is dropped, as in JavaScript.
\<close>

record mstate =
  seen :: string
  rest :: string
  caps :: "(nat \<times> string) list"

fun lit_match :: "flags \<Rightarrow> string \<Rightarrow> mstate \<Rightarrow> mstate list" where
  "lit_match fl [] st = [st]"
| "lit_match fl (x # xs) st =
     (case rest st of
        [] \<Rightarrow> []
      | c # cs \<Rightarrow> if chr_eq fl x c
                then lit_match fl xs (st\<lparr>seen := c # seen st, rest := cs\<rparr>)
                else [])"

definition consumed :: "mstate \<Rightarrow> mstate \<Rightarrow> string" where
  "consumed st st' = take (length (rest st) - length (rest st')) (rest st)"

function ms :: "flags \<Rightarrow> regex \<Rightarrow> mstate \<Rightarrow> mstate list" where
  "ms fl (Lit w) st = lit_match fl w st"
| "ms fl (Cls cs) st =
     (case rest st of
        [] \<Rightarrow> []
      | c # r \<Rightarrow> if cls_mem fl cs c then [st\<lparr>seen := c # seen st, rest := r\<rparr>] else [])"
| "ms fl (NCls cs) st =
     (case rest st of
        [] \<Rightarrow> []
      | c # r \<Rightarrow> if cls_mem fl cs c then [] else [st\<lparr>seen := c # seen st, rest := r\<rparr>])"
| "ms fl Dot st =
     (case rest st of
        [] \<Rightarrow> []
      | c # r \<Rightarrow> if isLineTerm c \<and> \<not> dotAll fl then []
                else [st\<lparr>seen := c # seen st, rest := r\<rparr>])"
| "ms fl (Seq a b) st = concat (map (ms fl b) (ms fl a st))"
| "ms fl (Alt a b) st = ms fl a st @ ms fl b st"
| "ms fl (Star g r) st =
     (let more = concat (map (\<lambda>st'. if length (rest st') < length (rest st)
                                     then ms fl (Star g r) st' else [])
                             (ms fl r st))
      in if g then more @ [st] else st # more)"
| "ms fl (Grp i r) st =
     map (\<lambda>st'. st'\<lparr>caps := (i, consumed st st') # caps st'\<rparr>) (ms fl r st)"
| "ms fl (Bref i) st =
     (case map_of (caps st) i of None \<Rightarrow> [st] | Some w \<Rightarrow> lit_match fl w st)"
| "ms fl Bol st =
     (if seen st = [] \<or> (multiline fl \<and> isLineTerm (hd (seen st))) then [st] else [])"
| "ms fl Eol st =
     (if rest st = [] \<or> (multiline fl \<and> isLineTerm (hd (rest st))) then [st] else [])"
| "ms fl WordB st =
     (if (seen st \<noteq> [] \<and> isWord (hd (seen st))) \<noteq> (rest st \<noteq> [] \<and> isWord (hd (rest st)))
      then [st] else [])"
| "ms fl (NBehind cs) st =
     (case seen st of [] \<Rightarrow> [st] | c # _ \<Rightarrow> if cls_mem fl cs c then [] else [st])"
| "ms fl (NAhead cs) st =
     (case rest st of [] \<Rightarrow> [st] | c # _ \<Rightarrow> if cls_mem fl cs c then [] else [st])"
  by pat_completeness auto
termination
  by (relation "inv_image (less_than <*lex*> less_than) (\<lambda>(fl, r, st). (size r, length (rest st)))")
     auto

declare ms.simps(7) [simp del]

subsection \<open>Pattern abbreviations\<close>

fun seqs :: "regex list \<Rightarrow> regex" where
  "seqs [] = Lit []"
| "seqs [r] = r"
| "seqs (r # rs) = Seq r (seqs rs)"

fun alts :: "regex list \<Rightarrow> regex" where
  "alts [] = Cls []"
| "alts [r] = r"
| "alts (r # rs) = Alt r (alts rs)"

text \<open>\<open>r+\<close>, \<open>r?\<close>, \<open>r{1,n+1}\<close> and \<open>r{3,}\<close> (all greedy unless the flag says lazy).\<close>

definition Plus :: "bool \<Rightarrow> regex \<Rightarrow> regex" where
  "Plus g r = Seq r (Star g r)"

definition Opt :: "regex \<Rightarrow> regex" where
  "Opt r = Alt r (Lit [])"

fun UpTo :: "nat \<Rightarrow> regex \<Rightarrow> regex" where
  "UpTo 0 r = Lit []"
| "UpTo (Suc n) r = Alt (Seq r (UpTo n r)) (Lit [])"

definition Rep1 :: "nat \<Rightarrow> regex \<Rightarrow> regex" where
  "Rep1 n r = Seq r (UpTo (n - 1) r)"

definition Min3 :: "regex \<Rightarrow> regex" where
  "Min3 r = Seq r (Seq r (Seq r (Star True r)))"

definition ws :: regex where
  "ws = Star True (Cls [S])"

definition ws1 :: regex where
  "ws1 = Plus True (Cls [S])"

definition noflags :: flags where
  "noflags = \<lparr>ignoreCase = False, multiline = False, dotAll = False\<rparr>"

definition fl_i :: flags where
  "fl_i = \<lparr>ignoreCase = True, multiline = False, dotAll = False\<rparr>"

definition fl_m :: flags where
  "fl_m = \<lparr>ignoreCase = False, multiline = True, dotAll = False\<rparr>"

definition fl_s :: flags where
  "fl_s = \<lparr>ignoreCase = False, multiline = False, dotAll = True\<rparr>"

section \<open>RegExp and String operations\<close>

text \<open>One match attempt at the current position: the first success of the backtracking search.\<close>

definition match_at :: "flags \<Rightarrow> regex \<Rightarrow> string \<Rightarrow> string \<Rightarrow> mstate option" where
  "match_at fl r sn rs =
     (case ms fl r \<lparr>seen = sn, rest = rs, caps = []\<rparr> of [] \<Rightarrow> None | st # _ \<Rightarrow> Some st)"

text \<open>The leftmost match at or after the current position (\<open>RegExp.prototype.exec\<close>):
  the reversed text before the match, and the state after it.\<close>

fun scan :: "flags \<Rightarrow> regex \<Rightarrow> string \<Rightarrow> string \<Rightarrow> (string \<times> mstate) option" where
  "scan fl r sn [] = (case match_at fl r sn [] of None \<Rightarrow> None | Some st \<Rightarrow> Some (sn, st))"
| "scan fl r sn (c # cs) =
     (case match_at fl r sn (c # cs) of
        None \<Rightarrow> scan fl r (c # sn) cs
      | Some st \<Rightarrow> Some (sn, st))"

definition re_test :: "flags \<Rightarrow> regex \<Rightarrow> string \<Rightarrow> bool" where
  "re_test fl r s = (scan fl r [] s \<noteq> None)"

text \<open>\<open>str.match(re)\<close> without the flag g: the whole match and the groups.\<close>

definition group :: "(nat \<times> string) list \<Rightarrow> nat \<Rightarrow> string option" where
  "group cp i = map_of cp i"

definition re_match :: "flags \<Rightarrow> regex \<Rightarrow> string \<Rightarrow> (string \<times> (nat \<times> string) list) option" where
  "re_match fl r s =
     (case scan fl r [] s of
        None \<Rightarrow> None
      | Some (sn, st) \<Rightarrow> Some (take (length s - length sn - length (rest st)) (drop (length sn) s), caps st))"

text \<open>\<open>GetSubstitution\<close>: the expansion of a replacement string. The arguments are the
  matched text, the text before and after the match, the captures (\<open>None\<close> is undefined)
  and the template.\<close>

definition digitVal :: "char \<Rightarrow> nat" where
  "digitVal c = cc c - 48"

definition capText :: "string option list \<Rightarrow> nat \<Rightarrow> string" where
  "capText cs n = (case cs ! (n - 1) of None \<Rightarrow> [] | Some w \<Rightarrow> w)"

fun getSubstitution :: "string \<Rightarrow> string \<Rightarrow> string \<Rightarrow> string option list \<Rightarrow> string \<Rightarrow> string" where
  "getSubstitution m p f cs [] = []"
| "getSubstitution m p f cs [c] = [c]"
| "getSubstitution m p f cs (c # d # t) =
     (if c \<noteq> CHR ''$'' then c # getSubstitution m p f cs (d # t)
      else if d = CHR ''$'' then CHR ''$'' # getSubstitution m p f cs t
      else if d = CHR ''&'' then m @ getSubstitution m p f cs t
      else if d = CHR ''`'' then p @ getSubstitution m p f cs t
      else if d = CHR 0x27 then f @ getSubstitution m p f cs t
      else if isDigit d then
        (case t of
           e # t' \<Rightarrow>
             if isDigit e \<and> 1 \<le> 10 * digitVal d + digitVal e \<and> 10 * digitVal d + digitVal e \<le> length cs
             then capText cs (10 * digitVal d + digitVal e) @ getSubstitution m p f cs t'
             else if 1 \<le> digitVal d \<and> digitVal d \<le> length cs
             then capText cs (digitVal d) @ getSubstitution m p f cs t
             else c # d # getSubstitution m p f cs t
         | [] \<Rightarrow>
             if 1 \<le> digitVal d \<and> digitVal d \<le> length cs
             then capText cs (digitVal d)
             else [c, d])
      else c # getSubstitution m p f cs (d # t))"

text \<open>A replacement is a function of the matched text, the groups, and the text before
  and after the match: a callback of the source ignores the last two, a replacement
  string is expanded by \<open>getSubstitution\<close>.\<close>

type_synonym repl = "string \<Rightarrow> (nat \<times> string) list \<Rightarrow> string \<Rightarrow> string \<Rightarrow> string"

definition tmpl :: "nat \<Rightarrow> string \<Rightarrow> repl" where
  "tmpl n t = (\<lambda>m cp p f. getSubstitution m p f (map (group cp) [1 ..< Suc n]) t)"

definition apply_repl :: "repl \<Rightarrow> string \<Rightarrow> string \<Rightarrow> mstate \<Rightarrow> string" where
  "apply_repl f sn rs st = f (take (length rs - length (rest st)) rs) (caps st) (rev sn) (rest st)"

text \<open>\<open>str.replace(re, f)\<close> with the flag g: after an empty match the search moves on by
  one character.\<close>

function replace_from :: "flags \<Rightarrow> regex \<Rightarrow> repl \<Rightarrow> string \<Rightarrow> string \<Rightarrow> string" where
  "replace_from fl r f sn rs =
     (case match_at fl r sn rs of
        None \<Rightarrow> (case rs of [] \<Rightarrow> [] | c # cs \<Rightarrow> c # replace_from fl r f (c # sn) cs)
      | Some st \<Rightarrow>
          if length (rest st) < length rs
          then apply_repl f sn rs st @ replace_from fl r f (seen st) (rest st)
          else (case rs of
                  [] \<Rightarrow> apply_repl f sn rs st
                | c # cs \<Rightarrow> apply_repl f sn rs st @ c # replace_from fl r f (c # sn) cs))"
  by pat_completeness auto
termination
  by (relation "measure (\<lambda>(fl, r, f, sn, rs). length rs)") auto

declare replace_from.simps [simp del]

definition replace_all :: "flags \<Rightarrow> regex \<Rightarrow> repl \<Rightarrow> string \<Rightarrow> string" where
  "replace_all fl r f s = replace_from fl r f [] s"

text \<open>\<open>str.replace(re, f)\<close> without the flag g: the leftmost match only.\<close>

definition replace_first :: "flags \<Rightarrow> regex \<Rightarrow> repl \<Rightarrow> string \<Rightarrow> string" where
  "replace_first fl r f s =
     (case scan fl r [] s of
        None \<Rightarrow> s
      | Some (sn, st) \<Rightarrow> rev sn @ apply_repl f sn (drop (length sn) s) st @ rest st)"

text \<open>\<open>str.replace(key, t)\<close> with a string pattern: the first occurrence of the key, the
  replacement string expanded by \<open>getSubstitution\<close> with no captures.\<close>

fun isPrefix :: "string \<Rightarrow> string \<Rightarrow> bool" where
  "isPrefix [] ys = True"
| "isPrefix (x # xs) [] = False"
| "isPrefix (x # xs) (y # ys) = (x = y \<and> isPrefix xs ys)"

fun str_replace_from :: "string \<Rightarrow> string \<Rightarrow> string \<Rightarrow> string \<Rightarrow> string" where
  "str_replace_from key t sn [] =
     (if key = [] then getSubstitution key (rev sn) [] [] t else [])"
| "str_replace_from key t sn (c # cs) =
     (if isPrefix key (c # cs)
      then getSubstitution key (rev sn) (drop (length key) (c # cs)) [] t @ drop (length key) (c # cs)
      else c # str_replace_from key t (c # sn) cs)"

definition str_replace :: "string \<Rightarrow> string \<Rightarrow> string \<Rightarrow> string" where
  "str_replace key t s = str_replace_from key t [] s"

text \<open>\<open>str.split('\n')\<close>, \<open>arr.join(sep)\<close>, \<open>str.trim()\<close>, \<open>str.indexOf\<close>,
  \<open>str.includes\<close>.\<close>

fun split_on :: "char \<Rightarrow> string \<Rightarrow> string list" where
  "split_on d [] = [[]]"
| "split_on d (c # cs) =
     (if c = d then [] # split_on d cs
      else (case split_on d cs of [] \<Rightarrow> [[c]] | l # ls \<Rightarrow> (c # l) # ls))"

fun join :: "string \<Rightarrow> string list \<Rightarrow> string" where
  "join sep [] = []"
| "join sep [x] = x"
| "join sep (x # xs) = x @ sep @ join sep xs"

definition trim :: "string \<Rightarrow> string" where
  "trim s = rev (dropWhile isSpace (rev (dropWhile isSpace s)))"

fun indexOf :: "string \<Rightarrow> string \<Rightarrow> nat option" where
  "indexOf key [] = (if key = [] then Some 0 else None)"
| "indexOf key (c # cs) =
     (if isPrefix key (c # cs) then Some 0 else map_option Suc (indexOf key cs))"

definition str_includes :: "string \<Rightarrow> string \<Rightarrow> bool" where
  "str_includes s key = (indexOf key s \<noteq> None)"

text \<open>\<open>str.split(re)\<close> for a pattern without groups: \<open>piece\<close> is the reversed text since
  the last split point; a match that ends at the last split point is skipped.\<close>

function split_from :: "flags \<Rightarrow> regex \<Rightarrow> string \<Rightarrow> string \<Rightarrow> string \<Rightarrow> string list" where
  "split_from fl r piece sn rs =
     (case rs of
        [] \<Rightarrow> [rev piece]
      | c # cs \<Rightarrow>
          (case match_at fl r sn rs of
             None \<Rightarrow> split_from fl r (c # piece) (c # sn) cs
           | Some st \<Rightarrow>
               if length (rest st) < length rs
               then rev piece # split_from fl r [] (seen st) (rest st)
               else if piece = [] then split_from fl r (c # piece) (c # sn) cs
               else rev piece # split_from fl r [] sn rs))"
  by pat_completeness auto
termination
  by (relation "inv_image (less_than <*lex*> less_than) (\<lambda>(fl, r, piece, sn, rs). (length rs, length piece))")
     auto

declare split_from.simps [simp del]

definition split_re :: "flags \<Rightarrow> regex \<Rightarrow> string \<Rightarrow> string list" where
  "split_re fl r s =
     (if s = [] then (if match_at fl r [] [] = None then [[]] else [])
      else split_from fl r [] [] s)"

text \<open>The DOM round trip \<open>div.textContent = text; div.innerHTML\<close>: the serialisation of
  a text node escapes \<open>&\<close>, \<open><\<close>, \<open>>\<close> and the no-break space.\<close>

definition escapeChar :: "char \<Rightarrow> string" where
  "escapeChar c =
     (if c = CHR ''&'' then ''&amp;''
      else if c = CHR ''<'' then ''&lt;''
      else if c = CHR ''>'' then ''&gt;''
      else if c = CHR 0xA0 then ''&nbsp;''
      else [c])"

definition escapeHtml :: "string \<Rightarrow> string" where
  "escapeHtml text = concat (map escapeChar text)"


text \<open>\<open>str.replace(re, callback)\<close> with the flag g and a callback that reads and updates
  a variable of the enclosing function (here: the array of protected fragments).\<close>

type_synonym 'a srepl = "'a \<Rightarrow> string \<Rightarrow> (nat \<times> string) list \<Rightarrow> string \<times> 'a"

definition apply_srepl :: "'a srepl \<Rightarrow> 'a \<Rightarrow> string \<Rightarrow> mstate \<Rightarrow> string \<times> 'a" where
  "apply_srepl f a rs st = f a (take (length rs - length (rest st)) rs) (caps st)"

function replace_st :: "flags \<Rightarrow> regex \<Rightarrow> 'a srepl \<Rightarrow> 'a \<Rightarrow> string \<Rightarrow> string \<Rightarrow> string \<times> 'a" where
  "replace_st fl r f a sn rs =
     (case match_at fl r sn rs of
        None \<Rightarrow>
          (case rs of
             [] \<Rightarrow> ([], a)
           | c # cs \<Rightarrow> (case replace_st fl r f a (c # sn) cs of (out, a') \<Rightarrow> (c # out, a')))
      | Some st \<Rightarrow>
          (case apply_srepl f a rs st of
             (o1, a1) \<Rightarrow>
               if length (rest st) < length rs
               then (case replace_st fl r f a1 (seen st) (rest st) of (o2, a2) \<Rightarrow> (o1 @ o2, a2))
               else (case rs of
                       [] \<Rightarrow> (o1, a1)
                     | c # cs \<Rightarrow>
                         (case replace_st fl r f a1 (c # sn) cs of (o2, a2) \<Rightarrow> (o1 @ c # o2, a2)))))"
  by pat_completeness auto
termination
  by (relation "measure (\<lambda>(fl, r, f, a, sn, rs). length rs)") auto

declare replace_st.simps [simp del]

text \<open>Decimal rendering of an array index in a template literal, and \<open>parseInt\<close> on a
  string of decimal digits.\<close>

definition digitChar :: "nat \<Rightarrow> char" where
  "digitChar d = char_of (48 + d)"

function showNat :: "nat \<Rightarrow> string" where
  "showNat n = (if n < 10 then [digitChar n] else showNat (n div 10) @ [digitChar (n mod 10)])"
  by pat_completeness auto
termination
  by (relation "measure id") auto

declare showNat.simps [simp del]

definition parseInt :: "string \<Rightarrow> nat" where
  "parseInt s = foldl (\<lambda>n c. 10 * n + digitVal c) 0 s"

definition gtext :: "(nat \<times> string) list \<Rightarrow> nat \<Rightarrow> string" where
  "gtext cp i = (case group cp i of None \<Rightarrow> [] | Some w \<Rightarrow> w)"

section \<open>The parser: preprocessing\<close>

definition dq :: char where
  "dq = CHR 0x22"

definition sq :: char where
  "sq = CHR 0x27"

definition nl :: char where
  "nl = CHR 0x0A"

definition cr :: char where
  "cr = CHR 0x0D"

definition tab :: char where
  "tab = CHR 0x09"

text \<open>\<^verbatim>\<open>/^["'`]([\s\S]*?)["'`]$/s\<close>\<close>

definition quoteRe :: regex where
  "quoteRe = seqs [Bol, Cls [C dq, C sq, C (CHR ''`'')], Grp 1 (Star False (Cls [S, NS])),
                   Cls [C dq, C sq, C (CHR ''`'')], Eol]"

text \<open>\<^verbatim>\<open>/[ \t]+$/gm\<close>\<close>

definition trailingRe :: regex where
  "trailingRe = Seq (Plus True (Cls [C (CHR '' ''), C tab])) Eol"

definition stripQuotes :: "string \<Rightarrow> string" where
  "stripQuotes text = replace_first fl_s quoteRe (tmpl 1 ''$1'') text"

definition normalizeContent :: "string \<Rightarrow> string" where
  "normalizeContent text0 =
     (let text1 = stripQuotes text0;
          text2 = replace_all noflags (Lit [cr]) (tmpl 0 [nl])
                    (replace_all noflags (Lit [cr, nl]) (tmpl 0 [nl]) text1);
          text3 = replace_all fl_m trailingRe (tmpl 0 []) text2
      in text3)"

text \<open>\<^verbatim>\<open>/```([\s\S]*?)```/g\<close> and \<^verbatim>\<open>/`([^`]+)`/g\<close>\<close>

definition fenceRe :: regex where
  "fenceRe = seqs [Lit ''```'', Grp 1 (Star False (Cls [S, NS])), Lit ''```'']"

definition inlineRe :: regex where
  "inlineRe = seqs [Lit ''`'', Grp 1 (Plus True (NCls [C (CHR ''`'')])), Lit ''`'']"

definition codeBlockKey :: "nat \<Rightarrow> string" where
  "codeBlockKey i = ''__CODE_BLOCK_'' @ showNat i @ ''__''"

definition inlineCodeKey :: "nat \<Rightarrow> string" where
  "inlineCodeKey i = ''__INLINE_CODE_'' @ showNat i @ ''__''"

definition protectFence :: "string list srepl" where
  "protectFence codeBlocks m cp =
     (codeBlockKey (length codeBlocks),
      codeBlocks @ [''<pre><code>'' @ escapeHtml (gtext cp 1) @ ''</code></pre>''])"

definition protectInline :: "string list srepl" where
  "protectInline inlineCode m cp =
     (inlineCodeKey (length inlineCode),
      inlineCode @ [''<code>'' @ escapeHtml (gtext cp 1) @ ''</code>''])"

definition protectCodeBlocks :: "string \<Rightarrow> string list \<Rightarrow> string list \<Rightarrow> string \<times> string list \<times> string list" where
  "protectCodeBlocks text0 codeBlocks0 inlineCode0 =
     (case replace_st noflags fenceRe protectFence codeBlocks0 [] text0 of
        (text1, codeBlocks1) \<Rightarrow>
          (case replace_st noflags inlineRe protectInline inlineCode0 [] text1 of
             (text2, inlineCode1) \<Rightarrow> (text2, codeBlocks1, inlineCode1)))"

text \<open>The two loops of \<open>restoreCodeBlocks\<close>: for each index in turn, the first occurrence
  of the key in the text is replaced, the stored fragment being the replacement string.\<close>

fun restoreLoop :: "(nat \<Rightarrow> string) \<Rightarrow> nat \<Rightarrow> string list \<Rightarrow> string \<Rightarrow> string" where
  "restoreLoop key i [] text = text"
| "restoreLoop key i (b # bs) text = restoreLoop key (Suc i) bs (str_replace (key i) b text)"

definition restoreCodeBlocks :: "string \<Rightarrow> string list \<Rightarrow> string list \<Rightarrow> string" where
  "restoreCodeBlocks text codeBlocks inlineCode =
     restoreLoop inlineCodeKey 0 inlineCode (restoreLoop codeBlockKey 0 codeBlocks text)"


section \<open>The parser: inline formatting\<close>

text \<open>\<^verbatim>\<open>/^\s*(#{1,6})\s*(.+?)\s*#*\s*$/gm\<close>, \<^verbatim>\<open>/^\s*[\*\-\+]\s*(#{1,6})\s*(.+?)\s*$/gm\<close>,
  \<^verbatim>\<open>/^(.+)\n\s*=+\s*$/gm\<close> and \<^verbatim>\<open>/^(.+)\n\s*-+\s*$/gm\<close>\<close>

definition atxRe :: regex where
  "atxRe = seqs [Bol, ws, Grp 1 (Rep1 6 (Lit ''#'')), ws, Grp 2 (Plus False Dot), ws,
                 Star True (Lit ''#''), ws, Eol]"

definition bulletAtxRe :: regex where
  "bulletAtxRe = seqs [Bol, ws, Cls [C (CHR ''*''), C (CHR ''-''), C (CHR ''+'')], ws,
                       Grp 1 (Rep1 6 (Lit ''#'')), ws, Grp 2 (Plus False Dot), ws, Eol]"

definition setextRe :: "char \<Rightarrow> regex" where
  "setextRe u = seqs [Bol, Grp 1 (Plus True Dot), Lit [nl], ws, Plus True (Lit [u]), ws, Eol]"

definition headerTag :: repl where
  "headerTag m cp p f =
     (let level = length (gtext cp 1)
      in ''<h'' @ showNat level @ ''>'' @ trim (gtext cp 2) @ ''</h'' @ showNat level @ ''>'')"

definition processHeaders :: "string \<Rightarrow> string" where
  "processHeaders text0 =
     (let text1 = replace_all fl_m atxRe headerTag text0;
          text2 = replace_all fl_m bulletAtxRe headerTag text1;
          text3 = replace_all fl_m (setextRe (CHR ''='')) (tmpl 1 ''<h1>$1</h1>'') text2;
          text4 = replace_all fl_m (setextRe (CHR ''-'')) (tmpl 1 ''<h2>$1</h2>'') text3
      in text4)"

text \<open>\<^verbatim>\<open>/""([^"]+)""/g\<close>, \<^verbatim>\<open>/(\*\*|__)([^\s][^\n]*?[^\s]|[^\s])(\1)/g\<close>,
  the four inner italic patterns \<^verbatim>\<open>/(?<!X)(d)([^d\n]+)(d)(?!X)/g\<close>,
  \<^verbatim>\<open>/(?<!\w)(\*|_)([^*_\s][^*_]*[^*_\s]|\S)\1(?!\w)/g\<close> and \<^verbatim>\<open>/~~([^~]+)~~/g\<close>\<close>

definition dquoteRe :: regex where
  "dquoteRe = seqs [Lit [dq, dq], Grp 1 (Plus True (NCls [C dq])), Lit [dq, dq]]"

definition boldRe :: regex where
  "boldRe = seqs [Grp 1 (Alt (Lit ''**'') (Lit ''__'')),
                  Grp 2 (Alt (seqs [NCls [S], Star False (NCls [C nl]), NCls [S]]) (NCls [S])),
                  Grp 3 (Bref 1)]"

definition innerEmRe :: "citem list \<Rightarrow> char \<Rightarrow> regex" where
  "innerEmRe guard d = seqs [NBehind guard, Grp 1 (Lit [d]), Grp 2 (Plus True (NCls [C d, C nl])),
                             Grp 3 (Lit [d]), NAhead guard]"

definition italicRe :: regex where
  "italicRe = seqs [NBehind [W], Grp 1 (Alt (Lit ''*'') (Lit ''_'')),
                    Grp 2 (Alt (seqs [NCls [C (CHR ''*''), C (CHR ''_''), S],
                                      Star True (NCls [C (CHR ''*''), C (CHR ''_'')]),
                                      NCls [C (CHR ''*''), C (CHR ''_''), S]])
                               (NCls [S])),
                    Bref 1, NAhead [W]]"

definition strikeRe :: regex where
  "strikeRe = seqs [Lit ''~~'', Grp 1 (Plus True (NCls [C (CHR ''~'')])), Lit ''~~'']"

definition boldTag :: repl where
  "boldTag m cp p f =
     (let delimiter = gtext cp 1;
          content0 = gtext cp 2;
          content1 =
            (if delimiter = ''**'' then
               replace_all noflags (innerEmRe [W] (CHR ''_'')) (tmpl 3 ''<em>$2</em>'')
                 (replace_all noflags (innerEmRe [C (CHR ''*'')] (CHR ''*'')) (tmpl 3 ''<em>$2</em>'') content0)
             else if delimiter = ''__'' then
               replace_all noflags (innerEmRe [C (CHR ''_'')] (CHR ''_'')) (tmpl 3 ''<em>$2</em>'')
                 (replace_all noflags (innerEmRe [W] (CHR ''*'')) (tmpl 3 ''<em>$2</em>'') content0)
             else content0)
      in ''<strong>'' @ content1 @ ''</strong>'')"

definition processTextFormatting :: "string \<Rightarrow> string" where
  "processTextFormatting text0 =
     (let text1 = replace_all noflags dquoteRe (tmpl 1 ([dq] @ ''*$1*'' @ [dq])) text0;
          text2 = replace_all noflags boldRe boldTag text1;
          text3 = replace_all noflags italicRe (tmpl 2 ''<em>$2</em>'') text2;
          text4 = replace_all noflags strikeRe (tmpl 1 ''<del>$1</del>'') text3
      in text4)"

text \<open>\<^verbatim>\<open>/^\s*>\s*(.+)$/gm\<close> and \<^verbatim>\<open>/(<\/blockquote>\s*<blockquote>)/g\<close>\<close>

definition quoteLineRe :: regex where
  "quoteLineRe = seqs [Bol, ws, Lit ''>'', ws, Grp 1 (Plus True Dot), Eol]"

definition quoteJoinRe :: regex where
  "quoteJoinRe = Grp 1 (seqs [Lit ''</blockquote>'', ws, Lit ''<blockquote>''])"

definition processBlockquotes :: "string \<Rightarrow> string" where
  "processBlockquotes text0 =
     (let text1 = replace_all fl_m quoteLineRe (tmpl 1 ''<blockquote>$1</blockquote>'') text0;
          text2 = replace_all noflags quoteJoinRe (tmpl 1 ''<br>'') text1
      in text2)"

text \<open>\<^verbatim>\<open>/^\s*(-{3,}|\*{3,}|_{3,})\s*$/gm\<close>\<close>

definition ruleRe :: regex where
  "ruleRe = seqs [Bol, ws, Grp 1 (alts [Min3 (Lit ''-''), Min3 (Lit ''*''), Min3 (Lit ''_'')]), ws, Eol]"

definition processHorizontalRules :: "string \<Rightarrow> string" where
  "processHorizontalRules text = replace_all fl_m ruleRe (tmpl 1 ''<hr>'') text"

text \<open>\<^verbatim>\<open>/!\[([^\]]*)\]\(([^)]+)\)/g\<close>, \<^verbatim>\<open>/\[([^\]]+)\]\(([^)]+)\)/g\<close> and
  \<^verbatim>\<open>/(?<!["'>])\bhttps?:\/\/[^\s<>]+/g\<close>\<close>

definition imageRe :: regex where
  "imageRe = seqs [Lit ''!['', Grp 1 (Star True (NCls [C (CHR '']'')])), Lit ''](''  ,
                   Grp 2 (Plus True (NCls [C (CHR '')'')])), Lit '')'']"

definition linkRe :: regex where
  "linkRe = seqs [Lit ''['', Grp 1 (Plus True (NCls [C (CHR '']'')])), Lit ''](''  ,
                  Grp 2 (Plus True (NCls [C (CHR '')'')])), Lit '')'']"

definition autolinkRe :: regex where
  "autolinkRe = seqs [NBehind [C dq, C sq, C (CHR ''>'')], WordB, Lit ''http'', Opt (Lit ''s''),
                      Lit ''://'', Plus True (NCls [S, C (CHR ''<''), C (CHR ''>'')])]"

definition processLinksAndImages :: "string \<Rightarrow> string" where
  "processLinksAndImages text0 =
     (let text1 = replace_all noflags imageRe
                    (tmpl 2 (''<img src='' @ [dq] @ ''$2'' @ [dq] @ '' alt='' @ [dq] @ ''$1'' @ [dq] @ ''>'')) text0;
          text2 = replace_all noflags linkRe
                    (tmpl 2 (''<a href='' @ [dq] @ ''$2'' @ [dq] @ ''>$1</a>'')) text1;
          text3 = replace_all noflags autolinkRe
                    (tmpl 0 (''<a href='' @ [dq] @ ''$&'' @ [dq] @ ''>$&</a>'')) text2
      in text3)"


section \<open>The parser: the list structuring engine\<close>

text \<open>The marker alternatives of \<open>processLists\<close> and \<open>analyzeIndentationLevels\<close>
  (\<^verbatim>\<open>[-*+]|\d+[\.\)]|\([0-9]+\)|[a-zA-Z][\.\)]|[ivxlcdm]+[\.\)]|[IVXLCDM]+[\.\)]\<close>, used
  with the flag i) and of \<open>checkListContext\<close> and the sequence checks (the first four
  alternatives, without flags).\<close>

definition dotParen :: regex where
  "dotParen = Cls [C (CHR ''.''), C (CHR '')'')]"

definition bulletM :: regex where
  "bulletM = Cls [C (CHR ''-''), C (CHR ''*''), C (CHR ''+'')]"

definition numberM :: regex where
  "numberM = Seq (Plus True (Cls [D])) dotParen"

definition parenM :: regex where
  "parenM = seqs [Lit ''('', Plus True (Cls [R (CHR ''0'') (CHR ''9'')]), Lit '')'']"

definition letterM :: regex where
  "letterM = Seq (Cls [R (CHR ''a'') (CHR ''z''), R (CHR ''A'') (CHR ''Z'')]) dotParen"

definition romanLowerM :: regex where
  "romanLowerM = Seq (Plus True (Cls (map C ''ivxlcdm''))) dotParen"

definition romanUpperM :: regex where
  "romanUpperM = Seq (Plus True (Cls (map C ''IVXLCDM''))) dotParen"

definition markerRe :: regex where
  "markerRe = alts [bulletM, numberM, parenM, letterM, romanLowerM, romanUpperM]"

definition shortMarkerRe :: regex where
  "shortMarkerRe = alts [bulletM, numberM, parenM, letterM]"

text \<open>\<^verbatim>\<open>/^(\s*)(marker)\s+(\[[ x]\]\s+)?(.*)$/i\<close>, \<^verbatim>\<open>/^(\s*)(marker)\s+/i\<close>,
  \<^verbatim>\<open>/^(\s*)(shortMarker)\s+(.*)$/\<close> and \<^verbatim>\<open>/^(orderedMarker)$/i\<close>\<close>

definition listRe :: regex where
  "listRe = seqs [Bol, Grp 1 ws, Grp 2 markerRe, ws1,
                  Opt (Grp 3 (seqs [Lit ''['', Cls [C (CHR '' ''), C (CHR ''x'')], Lit '']'', ws1])),
                  Grp 4 (Star True Dot), Eol]"

definition indentRe :: regex where
  "indentRe = seqs [Bol, Grp 1 ws, Grp 2 markerRe, ws1]"

definition contextRe :: regex where
  "contextRe = seqs [Bol, Grp 1 ws, Grp 2 shortMarkerRe, ws1, Grp 3 (Star True Dot), Eol]"

definition orderedRe :: regex where
  "orderedRe = seqs [Bol, Grp 1 (alts [numberM, parenM, letterM, romanLowerM, romanUpperM]), Eol]"

subsection \<open>\<open>analyzeIndentationLevels\<close> and \<open>calculateNestingLevel\<close>\<close>

text \<open>A JavaScript \<open>Map\<close> keeps its keys in insertion order: an association list with
  distinct keys, a new key appended at the end.\<close>

fun map_set :: "('k \<times> 'v) list \<Rightarrow> 'k \<Rightarrow> 'v \<Rightarrow> ('k \<times> 'v) list" where
  "map_set [] k v = [(k, v)]"
| "map_set ((k', v') # m) k v = (if k' = k then (k, v) # m else (k', v') # map_set m k v)"

definition map_get :: "('k \<times> 'v) list \<Rightarrow> 'k \<Rightarrow> 'v option" where
  "map_get m k = map_of m k"

definition map_has :: "('k \<times> 'v) list \<Rightarrow> 'k \<Rightarrow> bool" where
  "map_has m k = (map_of m k \<noteq> None)"

definition lineIndent :: "string \<Rightarrow> nat option" where
  "lineIndent line =
     (case re_match fl_i indentRe line of
        None \<Rightarrow> None
      | Some (m, cp) \<Rightarrow> Some (length (gtext cp 1)))"

definition countIndent :: "(nat \<times> nat) list \<Rightarrow> string \<Rightarrow> (nat \<times> nat) list" where
  "countIndent indentCounts line =
     (case lineIndent line of
        None \<Rightarrow> indentCounts
      | Some indent \<Rightarrow>
          map_set indentCounts indent
            ((case map_get indentCounts indent of None \<Rightarrow> 0 | Some n \<Rightarrow> n) + 1))"

fun setLevels :: "(nat \<times> nat) list \<Rightarrow> nat \<Rightarrow> nat list \<Rightarrow> (nat \<times> nat) list" where
  "setLevels levelMap index [] = levelMap"
| "setLevels levelMap index (indent # sortedIndents) =
     setLevels (map_set levelMap indent index) (Suc index) sortedIndents"

definition analyzeIndentationLevels :: "string list \<Rightarrow> (nat \<times> nat) list" where
  "analyzeIndentationLevels lines =
     (let indentCounts = foldl countIndent [] lines;
          sortedIndents = sort (map fst indentCounts)
      in setLevels [] 0 sortedIndents)"

fun closestLoop :: "nat \<Rightarrow> nat \<times> nat \<Rightarrow> (nat \<times> nat) list \<Rightarrow> nat \<times> nat" where
  "closestLoop indent (closestIndent, closestLevel) [] = (closestIndent, closestLevel)"
| "closestLoop indent (closestIndent, closestLevel) ((levelIndent, level) # m) =
     (if levelIndent \<le> indent \<and> levelIndent > closestIndent
      then closestLoop indent (levelIndent, level) m
      else closestLoop indent (closestIndent, closestLevel) m)"

definition calculateNestingLevel :: "nat \<Rightarrow> (nat \<times> nat) list \<Rightarrow> nat" where
  "calculateNestingLevel indent indentLevels =
     (case map_get indentLevels indent of
        Some level \<Rightarrow> level
      | None \<Rightarrow>
          (case closestLoop indent (0, 0) indentLevels of
             (closestIndent, closestLevel) \<Rightarrow>
               if indent > closestIndent then closestLevel + (indent - closestIndent) div 4
               else closestLevel))"

subsection \<open>The stack of open lists\<close>

text \<open>An open list context \<open>{type, level}\<close>; the stack has its top at the head of the
  list. \<open>result\<close> is the array of emitted lines.\<close>

record ctx =
  ltype :: string
  level :: nat

definition openTag :: "string \<Rightarrow> string" where
  "openTag t = ''<'' @ t @ ''>''"

definition closeTag :: "string \<Rightarrow> string" where
  "closeTag t = ''</'' @ t @ ''>''"

fun closeAllLists :: "ctx list \<Rightarrow> string list \<Rightarrow> ctx list \<times> string list" where
  "closeAllLists [] result = ([], result)"
| "closeAllLists (closedList # listStack) result =
     closeAllLists listStack (result @ [closeTag (ltype closedList)])"

fun closeDeeper :: "nat \<Rightarrow> ctx list \<Rightarrow> string list \<Rightarrow> ctx list \<times> string list" where
  "closeDeeper targetLevel [] result = ([], result)"
| "closeDeeper targetLevel (closedList # listStack) result =
     (if length (closedList # listStack) > targetLevel
      then closeDeeper targetLevel listStack (result @ [closeTag (ltype closedList)])
      else (closedList # listStack, result))"

function openUpTo :: "nat \<Rightarrow> string \<Rightarrow> ctx list \<Rightarrow> string list \<Rightarrow> ctx list \<times> string list" where
  "openUpTo targetLevel listType listStack result =
     (if length listStack < targetLevel
      then (let newType = (if length listStack = targetLevel - 1 then listType else ''ul'')
            in openUpTo targetLevel listType
                 (\<lparr>ltype = newType, level = length listStack\<rparr> # listStack)
                 (result @ [openTag newType]))
      else (listStack, result))"
  by pat_completeness auto
termination
  by (relation "measure (\<lambda>(targetLevel, listType, listStack, result). targetLevel - length listStack)")
     auto

declare openUpTo.simps [simp del]

definition retype :: "nat \<Rightarrow> string \<Rightarrow> ctx list \<Rightarrow> string list \<Rightarrow> ctx list \<times> string list" where
  "retype targetLevel listType listStack result =
     (case listStack of
        [] \<Rightarrow> (listStack, result)
      | currentList # below \<Rightarrow>
          if length listStack = targetLevel \<and> targetLevel > 0 \<and> ltype currentList \<noteq> listType
          then (\<lparr>ltype = listType, level = targetLevel - 1\<rparr> # below,
                result @ [closeTag (ltype currentList), openTag listType])
          else (listStack, result))"

definition openFirst :: "string \<Rightarrow> ctx list \<Rightarrow> string list \<Rightarrow> ctx list \<times> string list" where
  "openFirst listType listStack result =
     (if length listStack = 0
      then ([\<lparr>ltype = listType, level = 0\<rparr>], result @ [openTag listType])
      else (listStack, result))"

definition adjustListStack :: "ctx list \<Rightarrow> string list \<Rightarrow> nat \<Rightarrow> string \<Rightarrow> ctx list \<times> string list" where
  "adjustListStack listStack0 result0 targetLevel listType =
     (case closeDeeper targetLevel listStack0 result0 of
        (listStack1, result1) \<Rightarrow>
          (case openUpTo targetLevel listType listStack1 result1 of
             (listStack2, result2) \<Rightarrow>
               (case retype targetLevel listType listStack2 result2 of
                  (listStack3, result3) \<Rightarrow> openFirst listType listStack3 result3)))"

subsection \<open>The classification filter\<close>

text \<open>\<open>areRelatedMarkers\<close>: \<^verbatim>\<open>/^[-*+]$/\<close>, \<^verbatim>\<open>/^\d+[\.\)]$/\<close>, \<^verbatim>\<open>/^[a-zA-Z][\.\)]$/\<close>\<close>

definition whole :: "regex \<Rightarrow> regex" where
  "whole r = seqs [Bol, r, Eol]"

definition areRelatedMarkers :: "string \<Rightarrow> string \<Rightarrow> bool" where
  "areRelatedMarkers marker1 marker2 =
     (if re_test noflags (whole bulletM) marker1 \<and> re_test noflags (whole bulletM) marker2 then True
      else if re_test noflags (whole numberM) marker1 \<and> re_test noflags (whole numberM) marker2 then True
      else if re_test noflags (whole letterM) marker1 \<and> re_test noflags (whole letterM) marker2 then True
      else False)"

definition absDiff :: "nat \<Rightarrow> nat \<Rightarrow> nat" where
  "absDiff a b = (if a \<le> b then b - a else a - b)"

record listContext =
  hasContext :: bool
  nearbyItems :: nat

definition contextStep :: "string list \<Rightarrow> nat \<Rightarrow> string \<Rightarrow> nat \<Rightarrow> listContext \<Rightarrow> nat \<Rightarrow> listContext" where
  "contextStep lines currentIndex marker indent acc i =
     (if i = currentIndex then acc
      else (case re_match noflags contextRe (lines ! i) of
              None \<Rightarrow> acc
            | Some (m, cp) \<Rightarrow>
                (let otherIndent = length (gtext cp 1);
                     otherMarker = gtext cp 2
                 in if absDiff otherIndent indent \<le> 2
                    then \<lparr>hasContext = (if areRelatedMarkers marker otherMarker then True else hasContext acc),
                          nearbyItems = nearbyItems acc + 1\<rparr>
                    else acc)))"

definition checkListContext :: "string list \<Rightarrow> nat \<Rightarrow> string \<Rightarrow> nat \<Rightarrow> listContext" where
  "checkListContext lines currentIndex marker indent =
     foldl (contextStep lines currentIndex marker indent)
       \<lparr>hasContext = False, nearbyItems = 0\<rparr>
       [currentIndex - 3 ..< Suc (min (length lines - 1) (currentIndex + 3))]"

text \<open>\<open>verifyAlphabeticalSequence\<close> and \<open>verifyNumericalSequence\<close>: the loop runs over the
  earlier lines, nearest first, and returns as soon as every required marker was found.\<close>

definition stripDelim :: "string \<Rightarrow> string" where
  "stripDelim marker = replace_first noflags (Seq dotParen Eol) (tmpl 0 []) marker"

definition isLetter1 :: "string \<Rightarrow> bool" where
  "isLetter1 s = re_test noflags (whole (Cls [R (CHR ''a'') (CHR ''z''), R (CHR ''A'') (CHR ''Z'')])) s"

definition isNumber :: "string \<Rightarrow> bool" where
  "isNumber s = re_test noflags (whole (Plus True (Cls [D]))) s"

definition markerAt :: "nat \<Rightarrow> string \<Rightarrow> string option" where
  "markerAt indent line =
     (case re_match noflags contextRe line of
        None \<Rightarrow> None
      | Some (m, cp) \<Rightarrow>
          if absDiff (length (gtext cp 1)) indent \<le> 2 then Some (stripDelim (gtext cp 2)) else None)"

fun alphaLoop :: "nat \<Rightarrow> nat list \<Rightarrow> nat list \<Rightarrow> string list \<Rightarrow> bool" where
  "alphaLoop indent requiredLetters foundLetters [] = False"
| "alphaLoop indent requiredLetters foundLetters (line # earlier) =
     (let found =
            (case markerAt indent line of
               None \<Rightarrow> foundLetters
             | Some lineChar \<Rightarrow>
                 if isLetter1 lineChar \<and> cc (toLower (hd lineChar)) \<in> set requiredLetters
                 then List.insert (cc (toLower (hd lineChar))) foundLetters
                 else foundLetters)
      in if length found = length requiredLetters then True
         else alphaLoop indent requiredLetters found earlier)"

definition verifyAlphabeticalSequence :: "string list \<Rightarrow> nat \<Rightarrow> string \<Rightarrow> nat \<Rightarrow> bool" where
  "verifyAlphabeticalSequence lines currentIndex currentLetter indent =
     (let currentCharCode = cc (toLower (hd currentLetter));
          startCharCode = 97
      in if currentCharCode = startCharCode then True
         else alphaLoop indent [startCharCode ..< currentCharCode] []
                (rev (take currentIndex lines)))"

fun numLoop :: "nat \<Rightarrow> nat list \<Rightarrow> nat list \<Rightarrow> string list \<Rightarrow> bool" where
  "numLoop indent requiredNumbers foundNumbers [] = False"
| "numLoop indent requiredNumbers foundNumbers (line # earlier) =
     (let found =
            (case markerAt indent line of
               None \<Rightarrow> foundNumbers
             | Some lineNumber \<Rightarrow>
                 if isNumber lineNumber \<and> parseInt lineNumber \<in> set requiredNumbers
                 then List.insert (parseInt lineNumber) foundNumbers
                 else foundNumbers)
      in if length found = length requiredNumbers then True
         else numLoop indent requiredNumbers found earlier)"

definition verifyNumericalSequence :: "string list \<Rightarrow> nat \<Rightarrow> nat \<Rightarrow> nat \<Rightarrow> bool" where
  "verifyNumericalSequence lines currentIndex currentNumber indent =
     (if currentNumber = 1 then True
      else numLoop indent [1 ..< currentNumber] [] (rev (take currentIndex lines)))"

definition hasSequentialMarkers :: "string list \<Rightarrow> nat \<Rightarrow> string \<Rightarrow> nat \<Rightarrow> bool" where
  "hasSequentialMarkers lines currentIndex marker indent =
     (let baseChar = stripDelim marker
      in if isLetter1 baseChar then verifyAlphabeticalSequence lines currentIndex baseChar indent
         else if isNumber baseChar then verifyNumericalSequence lines currentIndex (parseInt baseChar) indent
         else False)"

text \<open>\<open>isActualListItem\<close>: \<^verbatim>\<open>/^[A-Z][a-z]*\s+[A-Z]/\<close>, \<^verbatim>\<open>/^[A-Z][a-z]*\.$/\<close>,
  \<^verbatim>\<open>/^[a-zA-Z0-9][\.\)]$/\<close> and \<^verbatim>\<open>/^[A-Z]/\<close>\<close>

definition upperC :: regex where
  "upperC = Cls [R (CHR ''A'') (CHR ''Z'')]"

definition lowerC :: regex where
  "lowerC = Cls [R (CHR ''a'') (CHR ''z'')]"

definition nameRe :: regex where
  "nameRe = seqs [Bol, upperC, Star True lowerC, ws1, upperC]"

definition abbrevRe :: regex where
  "abbrevRe = seqs [Bol, upperC, Star True lowerC, Lit ''.'', Eol]"

definition singleMarkerRe :: regex where
  "singleMarkerRe = seqs [Bol, Cls [R (CHR ''a'') (CHR ''z''), R (CHR ''A'') (CHR ''Z''),
                                    R (CHR ''0'') (CHR ''9'')], dotParen, Eol]"

definition afterMarker :: "string \<Rightarrow> string \<Rightarrow> string" where
  "afterMarker currentLine marker =
     (case indexOf marker currentLine of
        None \<Rightarrow> trim (drop (length marker - 1) currentLine)
      | Some k \<Rightarrow> trim (drop (k + length marker) currentLine))"

definition isActualListItem :: "string list \<Rightarrow> nat \<Rightarrow> string \<Rightarrow> nat \<Rightarrow> bool" where
  "isActualListItem lines currentIndex marker indent =
     (if re_test noflags (whole bulletM) marker then True
      else
        (let content = afterMarker (lines ! currentIndex) marker
         in if re_test noflags nameRe content \<or> re_test noflags abbrevRe content then False
            else
              (let listContext = checkListContext lines currentIndex marker indent
               in if hasContext listContext then True
                  else if re_test noflags singleMarkerRe marker then
                    (if hasSequentialMarkers lines currentIndex marker indent then True
                     else if re_test noflags (Seq Bol upperC) content
                             \<and> (str_includes content '' '' \<or> length content < 20)
                          then False
                     else nearbyItems listContext \<ge> 2)
                  else nearbyItems listContext \<ge> 2)))"

subsection \<open>\<open>processLists\<close>\<close>

definition listItem :: "(nat \<times> string) list \<Rightarrow> string" where
  "listItem cp =
     (let taskCheckbox = gtext cp 3;
          content = gtext cp 4;
          formattedContent =
            (if taskCheckbox \<noteq> []
             then ''<input type='' @ [dq] @ ''checkbox'' @ [dq] @ '' ''
                  @ (if str_includes taskCheckbox ''x'' then ''checked'' else [])
                  @ '' disabled> '' @ content
             else content)
      in ''<li>'' @ formattedContent @ ''</li>'')"

definition closeAndEmit :: "string \<Rightarrow> ctx list \<times> string list \<Rightarrow> ctx list \<times> string list" where
  "closeAndEmit line st =
     (case closeAllLists (fst st) (snd st) of (listStack, result) \<Rightarrow> (listStack, result @ [line]))"

text \<open>One iteration of the loop of \<open>processLists\<close>, on the line with index \<open>i\<close>.\<close>

definition listStep :: "string list \<Rightarrow> (nat \<times> nat) list \<Rightarrow> nat \<Rightarrow> string \<Rightarrow> ctx list \<times> string list \<Rightarrow> ctx list \<times> string list" where
  "listStep lines indentLevels i line st =
     (case re_match fl_i listRe line of
        Some (m, cp) \<Rightarrow>
          (let indent = length (gtext cp 1);
               marker = gtext cp 2
           in if \<not> isActualListItem lines i marker indent then closeAndEmit line st
              else
                (let listType = (if re_test fl_i orderedRe marker then ''ol'' else ''ul'');
                     level = calculateNestingLevel indent indentLevels
                 in (case adjustListStack (fst st) (snd st) level listType of
                       (listStack, result) \<Rightarrow> (listStack, result @ [listItem cp]))))
      | None \<Rightarrow>
          if trim line \<noteq> [] then closeAndEmit line st
          else (fst st, snd st @ [line]))"

fun walk :: "string list \<Rightarrow> (nat \<times> nat) list \<Rightarrow> nat \<Rightarrow> string list \<Rightarrow> ctx list \<times> string list \<Rightarrow> ctx list \<times> string list" where
  "walk lines indentLevels i [] st = st"
| "walk lines indentLevels i (line # later) st =
     walk lines indentLevels (Suc i) later (listStep lines indentLevels i line st)"

definition processLists :: "string \<Rightarrow> string" where
  "processLists text =
     (let lines = split_on nl text;
          indentLevels = analyzeIndentationLevels lines
      in (case walk lines indentLevels 0 lines ([], []) of
            (listStack, result) \<Rightarrow> join [nl] (snd (closeAllLists listStack result))))"

section \<open>The parser: block assembly and final cleanup\<close>

text \<open>\<^verbatim>\<open>/\n\s*\n/\<close>, \<^verbatim>\<open>/^(\s*<h[1-6][^>]*>[\s\S]*?<\/h[1-6]>)\s*([\s\S]+)$/i\<close>,
  \<^verbatim>\<open>/^<(h[1-6]|ul|ol|blockquote|pre|hr|div)/i\<close> and
  \<^verbatim>\<open>/(<\/h[1-6]>|<\/ul>|<\/ol>|<\/blockquote>|<\/pre>|<hr>|<\/div>)$/i\<close>\<close>

definition blankRe :: regex where
  "blankRe = seqs [Lit [nl], ws, Lit [nl]]"

definition h16 :: regex where
  "h16 = Cls [R (CHR ''1'') (CHR ''6'')]"

definition headerTextRe :: regex where
  "headerTextRe =
     seqs [Bol,
           Grp 1 (seqs [ws, Lit ''<h'', h16, Star True (NCls [C (CHR ''>'')]), Lit ''>'',
                        Star False (Cls [S, NS]), Lit ''</h'', h16, Lit ''>'']),
           ws, Grp 2 (Plus True (Cls [S, NS])), Eol]"

definition blockStartRe :: regex where
  "blockStartRe =
     seqs [Bol, Lit ''<'',
           Grp 1 (alts [Seq (Lit ''h'') h16, Lit ''ul'', Lit ''ol'', Lit ''blockquote'',
                        Lit ''pre'', Lit ''hr'', Lit ''div''])]"

definition blockEndRe :: regex where
  "blockEndRe =
     seqs [Grp 1 (alts [seqs [Lit ''</h'', h16, Lit ''>''], Lit ''</ul>'', Lit ''</ol>'',
                        Lit ''</blockquote>'', Lit ''</pre>'', Lit ''<hr>'', Lit ''</div>'']),
           Eol]"

definition isBlockElement :: "string \<Rightarrow> bool" where
  "isBlockElement s = (re_test fl_i blockStartRe s \<or> re_test fl_i blockEndRe s)"

definition wrapParagraph :: "string \<Rightarrow> string" where
  "wrapParagraph s = ''<p>'' @ replace_all noflags (Lit [nl]) (tmpl 0 ''<br>'') s @ ''</p>''"

text \<open>One iteration of the loop of \<open>processParagraphs\<close>: what it pushes for a block.\<close>

definition processBlock :: "string \<Rightarrow> string list" where
  "processBlock block0 =
     (let block = trim block0
      in if block = [] then []
         else
           (case re_match fl_i headerTextRe block of
              Some (m, cp) \<Rightarrow>
                (let after = trim (gtext cp 2)
                 in gtext cp 1 #
                    (if after \<noteq> []
                     then (if isBlockElement after then [after] else [wrapParagraph after])
                     else []))
            | None \<Rightarrow>
                if isBlockElement block then [block] else [wrapParagraph block]))"

definition processParagraphs :: "string \<Rightarrow> string" where
  "processParagraphs text =
     (let blocks = split_re noflags blankRe text
      in join [nl] (concat (map processBlock blocks)))"

text \<open>The patterns of \<open>finalCleanup\<close>, in order:
  \<^verbatim>\<open>/<\/(h[1-6])>\s*<br\s*\/?>\s*/gi\<close>, \<^verbatim>\<open>/<p>\s*<\/p>/g\<close>,
  \<^verbatim>\<open>/<p>(?:\s|&nbsp;|<br\s*\/?>)*<\/p>/gi\<close>, \<^verbatim>\<open>/<br>\s*<(ul|ol|li|\/ul|\/ol|\/li)>/g\<close>,
  \<^verbatim>\<open>/<(ul|ol|li|\/ul|\/ol|\/li)>\s*<br>/g\<close>, \<^verbatim>\<open>/\n\s*\n\s*\n/g\<close>, \<^verbatim>\<open>/>\s*\n\s*</g\<close>\<close>

definition brTag :: regex where
  "brTag = seqs [Lit ''<br'', ws, Opt (Lit ''/''), Lit ''>'']"

definition listTagName :: regex where
  "listTagName = alts [Lit ''ul'', Lit ''ol'', Lit ''li'', Lit ''/ul'', Lit ''/ol'', Lit ''/li'']"

definition headerBrRe :: regex where
  "headerBrRe = seqs [Lit ''</'', Grp 1 (Seq (Lit ''h'') h16), Lit ''>'', ws, brTag, ws]"

definition emptyParRe :: regex where
  "emptyParRe = seqs [Lit ''<p>'', ws, Lit ''</p>'']"

definition blankParRe :: regex where
  "blankParRe = seqs [Lit ''<p>'', Star True (alts [Cls [S], Lit ''&nbsp;'', brTag]), Lit ''</p>'']"

definition brBeforeListRe :: regex where
  "brBeforeListRe = seqs [Lit ''<br>'', ws, Lit ''<'', Grp 1 listTagName, Lit ''>'']"

definition brAfterListRe :: regex where
  "brAfterListRe = seqs [Lit ''<'', Grp 1 listTagName, Lit ''>'', ws, Lit ''<br>'']"

definition tripleBlankRe :: regex where
  "tripleBlankRe = seqs [Lit [nl], ws, Lit [nl], ws, Lit [nl]]"

definition betweenTagsRe :: regex where
  "betweenTagsRe = seqs [Lit ''>'', ws, Lit [nl], ws, Lit ''<'']"

definition finalCleanup :: "string \<Rightarrow> string" where
  "finalCleanup html0 =
     (let html1 = replace_all fl_i headerBrRe (tmpl 1 ''</$1>'') html0;
          html2 = replace_all noflags emptyParRe (tmpl 0 []) html1;
          html3 = replace_all fl_i blankParRe (tmpl 0 []) html2;
          html4 = replace_all noflags brBeforeListRe (tmpl 1 ''<$1>'') html3;
          html5 = replace_all noflags brAfterListRe (tmpl 1 ''<$1>'') html4;
          html6 = replace_all noflags tripleBlankRe (tmpl 0 [nl, nl]) html5;
          html7 = replace_all noflags betweenTagsRe (tmpl 0 ''><'') html6
      in join [nl] (filter (\<lambda>line. line \<noteq> []) (map trim (split_on nl html7))))"

section \<open>The entry point\<close>

text \<open>The body of the \<open>try\<close> block is a sequence of statements on the variables \<open>html\<close>,
  \<open>codeBlocks\<close> and \<open>inlineCode\<close>. A statement either throws or yields the next values
  of the variables; the \<open>catch\<close> clause replaces whatever was computed by the fallback
  rendering of the raw input.\<close>

datatype error = ReferenceError

record vars =
  html :: string
  codeBlocks :: "string list"
  inlineCode :: "string list"

type_synonym stage = "vars \<Rightarrow> error + vars"

fun runStages :: "stage list \<Rightarrow> vars \<Rightarrow> error + vars" where
  "runStages [] v = Inr v"
| "runStages (f # fs) v = (case f v of Inl e \<Rightarrow> Inl e | Inr v' \<Rightarrow> runStages fs v')"

definition fallback :: "string \<Rightarrow> string" where
  "fallback markdown =
     ''<p>Error rendering content. Raw content:</p><pre>'' @ escapeHtml markdown @ ''</pre>''"

definition tryCatch :: "stage list \<Rightarrow> string \<Rightarrow> string" where
  "tryCatch stages markdown =
     (case runStages stages \<lparr>html = markdown, codeBlocks = [], inlineCode = []\<rparr> of
        Inr v \<Rightarrow> html v
      | Inl e \<Rightarrow> fallback markdown)"

text \<open>The statements of the source, as they run in a page (a runtime in which the
  global \<open>document\<close> is defined). There none of them throws on a string.\<close>

definition onHtml :: "(string \<Rightarrow> string) \<Rightarrow> stage" where
  "onHtml f v = Inr (v\<lparr>html := f (html v)\<rparr>)"

definition protectStage :: stage where
  "protectStage v =
     (case protectCodeBlocks (html v) (codeBlocks v) (inlineCode v) of
        (text, cb, ic) \<Rightarrow> Inr \<lparr>html = text, codeBlocks = cb, inlineCode = ic\<rparr>)"

definition restoreStage :: stage where
  "restoreStage v = Inr (v\<lparr>html := restoreCodeBlocks (html v) (codeBlocks v) (inlineCode v)\<rparr>)"

definition parserStages :: "stage list" where
  "parserStages =
     [onHtml normalizeContent, protectStage, onHtml processHeaders, onHtml processTextFormatting,
      onHtml processBlockquotes, onHtml processLists, onHtml processHorizontalRules,
      onHtml processLinksAndImages, restoreStage, onHtml processParagraphs, onHtml finalCleanup]"

definition convertMarkdownToHTML :: "string \<Rightarrow> string" where
  "convertMarkdownToHTML markdown = tryCatch parserStages markdown"


section \<open>The entry point in a runtime without a document\<close>












section \<open>Notions used to state and prove the claims\<close>

text \<open>The indent widths of the lines that match the marker grammar, in document order.\<close>

definition usedIndents :: "string list \<Rightarrow> nat list" where
  "usedIndents lines = List.map_filter lineIndent lines"

text \<open>A string of whitespace only, and a sufficient condition for a pattern to match
  only where a character other than whitespace is present.\<close>

definition blank :: "string \<Rightarrow> bool" where
  "blank s = list_all isSpace s"

definition spaces :: string where
  "spaces = [CHR 0x09, CHR 0x0A, CHR 0x0B, CHR 0x0C, CHR 0x0D, CHR 0x20, CHR 0xA0]"

fun needsInk :: "flags \<Rightarrow> regex \<Rightarrow> bool" where
  "needsInk fl (Lit w) = (\<not> list_all isSpace w)"
| "needsInk fl (Cls cs) = list_all (\<lambda>c. \<not> cls_mem fl cs c) spaces"
| "needsInk fl (NCls cs) = list_all (\<lambda>c. cls_mem fl cs c) spaces"
| "needsInk fl (Seq a b) = (needsInk fl a \<or> needsInk fl b)"
| "needsInk fl (Alt a b) = (needsInk fl a \<and> needsInk fl b)"
| "needsInk fl (Grp i r) = needsInk fl r"
| "needsInk fl r = False"

text \<open>A line is an accepted list candidate when it matches the list pattern and the
  classification filter accepts it; \<open>closers\<close> are the closing tags of a stack of open
  lists, the top of the stack (the deepest list) first.\<close>

definition accepted :: "string list \<Rightarrow> nat \<Rightarrow> string \<Rightarrow> bool" where
  "accepted lines i line =
     (case re_match fl_i listRe line of
        None \<Rightarrow> False
      | Some (m, cp) \<Rightarrow> isActualListItem lines i (gtext cp 2) (length (gtext cp 1)))"

definition closers :: "ctx list \<Rightarrow> string list" where
  "closers listStack = map (\<lambda>c. closeTag (ltype c)) listStack"

text \<open>The quote characters that \<open>normalizeContent\<close> strips.\<close>

definition isQuote :: "char \<Rightarrow> bool" where
  "isQuote c = (c = dq \<or> c = sq \<or> c = CHR ''`'')"

text \<open>The line of claim C6.\<close>

definition spielberger :: string where
  "spielberger = ''B. Spielberger directed the film.''"

text \<open>A sufficient condition for a pattern to match only at a character other than
  whitespace, and the numbers of the groups of a pattern.\<close>

fun startsInk :: "flags \<Rightarrow> regex \<Rightarrow> bool" where
  "startsInk fl (Lit w) = (w \<noteq> [] \<and> \<not> isSpace (hd w))"
| "startsInk fl (Cls cs) = list_all (\<lambda>c. \<not> cls_mem fl cs c) spaces"
| "startsInk fl (NCls cs) = list_all (\<lambda>c. cls_mem fl cs c) spaces"
| "startsInk fl (Seq a b) = startsInk fl a"
| "startsInk fl (Alt a b) = (startsInk fl a \<and> startsInk fl b)"
| "startsInk fl (Grp i r) = startsInk fl r"
| "startsInk fl r = False"

fun groupsOf :: "regex \<Rightarrow> nat list" where
  "groupsOf (Seq a b) = groupsOf a @ groupsOf b"
| "groupsOf (Alt a b) = groupsOf a @ groupsOf b"
| "groupsOf (Star g r) = groupsOf r"
| "groupsOf (Grp i r) = i # groupsOf r"
| "groupsOf r = []"

text \<open>The stack of open lists and the emitted lines after the first \<open>k\<close> lines of a
  document went through the loop of \<open>processLists\<close>: the loop body applied to the lines in
  document order, each with its index, from the empty stack and the empty result.\<close>

definition stateAfter :: "string \<Rightarrow> nat \<Rightarrow> ctx list \<times> string list" where
  "stateAfter doc k =
     foldl (\<lambda>s (j, l). listStep (split_on nl doc) (analyzeIndentationLevels (split_on nl doc)) j l s)
       ([], []) (enumerate 0 (take k (split_on nl doc)))"

section \<open>Properties of the matcher\<close>

text \<open>A match only consumes input: the text after a match is a suffix of the text before
  it. A pattern that needs a character other than whitespace fails on blank text.\<close>

lemma isSpace_spaces: "isSpace c \<longleftrightarrow> c \<in> set spaces"
  by (simp add: isSpace_def spaces_def)

lemma swapCase_space: "isSpace c \<Longrightarrow> swapCase c = c"
  by (auto simp: isSpace_def swapCase_def isUpper_def isLower_def)

lemma lit_match_suffix: "st' \<in> set (lit_match fl w st) \<Longrightarrow> suffix (rest st') (rest st)"
proof (induction w arbitrary: st)
  case Nil
  then show ?case by simp
next
  case (Cons x xs)
  show ?case
  proof (cases "rest st")
    case Nil
    with Cons.prems show ?thesis by simp
  next
    case (Cons c cs)
    with Cons.prems have m: "st' \<in> set (lit_match fl xs (st\<lparr>seen := c # seen st, rest := cs\<rparr>))"
      by (simp split: if_splits)
    from Cons.IH [OF m] have "suffix (rest st') cs" by simp
    with Cons show ?thesis by (simp add: suffix_ConsI)
  qed
qed

lemma step_suffix:
  "st' \<in> set (case rest st of [] \<Rightarrow> [] | c # r \<Rightarrow> if P c then [st\<lparr>seen := c # seen st, rest := r\<rparr>] else [])
   \<Longrightarrow> suffix (rest st') (rest st)"
  by (cases "rest st") (auto split: if_splits simp: suffix_ConsI)

lemma ms_suffix: "st' \<in> set (ms fl r st) \<Longrightarrow> suffix (rest st') (rest st)"
proof (induction fl r st arbitrary: st' rule: ms.induct)
  case (1 fl w st)
  then show ?case by (simp add: lit_match_suffix)
next
  case (2 fl cs st)
  then show ?case by (cases "rest st") (auto split: if_splits simp: suffix_ConsI)
next
  case (3 fl cs st)
  then show ?case by (cases "rest st") (auto split: if_splits simp: suffix_ConsI)
next
  case (4 fl st)
  then show ?case by (cases "rest st") (auto split: if_splits simp: suffix_ConsI)
next
  case (5 fl a b st)
  from "5.prems" obtain m where m: "m \<in> set (ms fl a st)" and s: "st' \<in> set (ms fl b m)"
    by auto
  from "5.IH"(1) [OF m] "5.IH"(2) [OF m s] show ?case
    using suffix_order.trans by blast
next
  case (6 fl a b st)
  then show ?case by auto
next
  case (7 fl g r st)
  from "7.prems" have "st' = st \<or> (\<exists>m \<in> set (ms fl r st). length (rest m) < length (rest st) \<and> st' \<in> set (ms fl (Star g r) m))"
    by (subst (asm) ms.simps(7)) (auto simp: Let_def split: if_splits)
  then show ?case
  proof
    assume "st' = st"
    then show ?thesis by simp
  next
    assume "\<exists>m \<in> set (ms fl r st). length (rest m) < length (rest st) \<and> st' \<in> set (ms fl (Star g r) m)"
    then obtain m where m: "m \<in> set (ms fl r st)" and l: "length (rest m) < length (rest st)"
      and s: "st' \<in> set (ms fl (Star g r) m)" by auto
    from "7.IH"(1) [OF m] "7.IH"(2) [OF m l s] show ?thesis
      using suffix_order.trans by blast
  qed
next
  case (8 fl i r st)
  then show ?case by auto
next
  case (9 fl i st)
  then show ?case by (auto split: option.splits simp: lit_match_suffix)
next
  case (10 fl st)
  then show ?case by (auto split: if_splits)
next
  case (11 fl st)
  then show ?case by (auto split: if_splits)
next
  case (12 fl st)
  then show ?case by (auto split: if_splits)
next
  case (13 fl cs st)
  then show ?case by (cases "seen st") (auto split: if_splits)
next
  case (14 fl cs st)
  then show ?case by (cases "rest st") (auto split: if_splits)
qed

lemma blank_suffix: "suffix t s \<Longrightarrow> blank s \<Longrightarrow> blank t"
  using set_mono_suffix by (fastforce simp: blank_def list_all_iff)

lemma ms_blank: "st' \<in> set (ms fl r st) \<Longrightarrow> blank (rest st) \<Longrightarrow> blank (rest st')"
  using ms_suffix blank_suffix by blast

lemma lit_match_blank: "\<not> list_all isSpace w \<Longrightarrow> blank (rest st) \<Longrightarrow> lit_match fl w st = []"
proof (induction w arbitrary: st)
  case Nil
  then show ?case by simp
next
  case (Cons x xs)
  show ?case
  proof (cases "rest st")
    case Nil
    then show ?thesis by simp
  next
    case (Cons c cs)
    with Cons.prems(2) have c: "isSpace c" and cs: "blank cs" by (simp_all add: blank_def)
    show ?thesis
    proof (cases "chr_eq fl x c")
      case True
      with c have "isSpace x" by (auto simp: chr_eq_def swapCase_space)
      with Cons.prems(1) have "\<not> list_all isSpace xs" by simp
      with Cons.IH [of "st\<lparr>seen := c # seen st, rest := cs\<rparr>"] cs Cons True show ?thesis by simp
    next
      case False
      with Cons show ?thesis by simp
    qed
  qed
qed

lemma ms_needsInk: "needsInk fl r \<Longrightarrow> blank (rest st) \<Longrightarrow> ms fl r st = []"
proof (induction r arbitrary: st)
  case (Lit w)
  then show ?case by (simp add: lit_match_blank)
next
  case (Cls cs)
  then show ?case
    by (cases "rest st") (auto simp: blank_def list_all_iff isSpace_spaces)
next
  case (NCls cs)
  then show ?case
    by (cases "rest st") (auto simp: blank_def list_all_iff isSpace_spaces)
next
  case (Seq a b)
  show ?case
  proof (cases "needsInk fl a")
    case True
    with Seq show ?thesis by simp
  next
    case False
    with Seq.prems have b: "needsInk fl b" by simp
    have "\<forall>m \<in> set (ms fl a st). ms fl b m = []"
      using Seq.IH(2) [OF b] ms_blank [OF _ Seq.prems(2)] by blast
    then show ?thesis by simp
  qed
next
  case (Alt a b)
  then show ?case by simp
next
  case (Grp i r)
  then show ?case by simp
qed simp_all

section \<open>The list walk and blank lines\<close>

lemma match_at_needsInk: "needsInk fl r \<Longrightarrow> blank rs \<Longrightarrow> match_at fl r sn rs = None"
  by (simp add: match_at_def ms_needsInk)

lemma blank_Cons: "blank (c # cs) \<longleftrightarrow> isSpace c \<and> blank cs"
  by (simp add: blank_def)

lemma scan_needsInk: "needsInk fl r \<Longrightarrow> blank rs \<Longrightarrow> scan fl r sn rs = None"
  by (induction rs arbitrary: sn) (simp_all add: match_at_needsInk blank_Cons)

lemma re_match_needsInk: "needsInk fl r \<Longrightarrow> blank s \<Longrightarrow> re_match fl r s = None"
  by (simp add: re_match_def scan_needsInk)

lemma trim_Nil_blank: "trim s = [] \<longleftrightarrow> blank s"
proof
  assume "trim s = []"
  then have a: "\<forall>x \<in> set (dropWhile isSpace s). isSpace x"
    by (simp add: trim_def dropWhile_eq_Nil_conv)
  have "dropWhile isSpace s = []"
  proof (rule ccontr)
    assume n: "dropWhile isSpace s \<noteq> []"
    then have "\<not> isSpace (hd (dropWhile isSpace s))" by (rule hd_dropWhile)
    moreover have "hd (dropWhile isSpace s) \<in> set (dropWhile isSpace s)" using n by simp
    ultimately show False using a by blast
  qed
  then show "blank s" by (simp add: blank_def dropWhile_eq_Nil_conv list_all_iff)
next
  assume "blank s"
  then show "trim s = []"
    by (auto simp: trim_def blank_def list_all_iff dest: set_dropWhileD)
qed

lemma listRe_needsInk: "needsInk fl_i listRe"
  by code_simp

lemma closeAllLists_closers: "closeAllLists listStack result = ([], result @ closers listStack)"
  by (induction listStack arbitrary: result) (simp_all add: closers_def)

lemma listStep_blank:
  assumes "trim line = []"
  shows "listStep lines levels i line (listStack, result) = (listStack, result @ [line])"
proof -
  from assms have "re_match fl_i listRe line = None"
    by (simp add: trim_Nil_blank re_match_needsInk listRe_needsInk)
  with assms show ?thesis
    by (simp add: listStep_def)
qed

lemma listStep_rejected:
  assumes "trim line \<noteq> []" and "\<not> accepted lines i line"
  shows "listStep lines levels i line (listStack, result) = ([], result @ closers listStack @ [line])"
  using assms
  by (auto simp: listStep_def accepted_def closeAndEmit_def closeAllLists_closers Let_def
           split: option.splits)

lemma processLists_closes:
  "processLists text =
     join [nl] (snd (walk (split_on nl text) (analyzeIndentationLevels (split_on nl text)) 0
                       (split_on nl text) ([], []))
                @ closers (fst (walk (split_on nl text) (analyzeIndentationLevels (split_on nl text)) 0
                       (split_on nl text) ([], []))))"
  by (simp add: processLists_def Let_def closeAllLists_closers split: prod.splits)

lemma walk_foldl:
  "walk lines levels i ls st = foldl (\<lambda>s (j, l). listStep lines levels j l s) st (enumerate i ls)"
  by (induction ls arbitrary: i st) simp_all

lemma stateAfter_Suc:
  assumes "k < length (split_on nl doc)"
  shows "stateAfter doc (Suc k) =
           listStep (split_on nl doc) (analyzeIndentationLevels (split_on nl doc)) k
             (split_on nl doc ! k) (stateAfter doc k)"
proof -
  have "enumerate 0 (take (Suc k) (split_on nl doc))
          = enumerate 0 (take k (split_on nl doc)) @ [(k, split_on nl doc ! k)]"
    using assms by (simp add: take_Suc_conv_app_nth enumerate_append_eq)
  then show ?thesis
    by (simp add: stateAfter_def)
qed

lemma processLists_stateAfter:
  "processLists doc =
     join [nl] (snd (stateAfter doc (length (split_on nl doc)))
                @ closers (fst (stateAfter doc (length (split_on nl doc)))))"
  by (simp add: processLists_closes walk_foldl stateAfter_def)

text \<open>
  Claim C7. The loop of \<open>processLists\<close> applies its body to every line of the document in
  order, from the empty stack. At a blank line the stack of open lists stays as it is and
  the line is emitted unchanged; at a line that is not blank and is not an accepted list
  candidate the whole stack is closed, the closing tags emitted from the top of the stack
  (the deepest list) down, and then the line is emitted unchanged; after the last line
  every list still open is closed, and the result is the emitted lines joined.
\<close>

theorem C7_list_walk:
  "(\<forall>k. k < length (split_on nl doc) \<and> trim (split_on nl doc ! k) = [] \<longrightarrow>
      stateAfter doc (Suc k) =
        (fst (stateAfter doc k), snd (stateAfter doc k) @ [split_on nl doc ! k]))
   \<and> (\<forall>k. k < length (split_on nl doc) \<and> trim (split_on nl doc ! k) \<noteq> []
           \<and> \<not> accepted (split_on nl doc) k (split_on nl doc ! k) \<longrightarrow>
      stateAfter doc (Suc k) =
        ([], snd (stateAfter doc k) @ closers (fst (stateAfter doc k)) @ [split_on nl doc ! k]))
   \<and> processLists doc =
       join [nl] (snd (stateAfter doc (length (split_on nl doc)))
                  @ closers (fst (stateAfter doc (length (split_on nl doc)))))
   \<and> walk lines levels i ls st = foldl (\<lambda>s (j, l). listStep lines levels j l s) st (enumerate i ls)
   \<and> (trim line = [] \<longrightarrow>
        listStep lines levels i line (listStack, result) = (listStack, result @ [line]))
   \<and> (trim line \<noteq> [] \<and> \<not> accepted lines i line \<longrightarrow>
        listStep lines levels i line (listStack, result) = ([], result @ closers listStack @ [line]))
   \<and> closeAllLists listStack result = ([], result @ closers listStack)"
proof (intro conjI allI impI)
  fix k
  assume a: "k < length (split_on nl doc) \<and> trim (split_on nl doc ! k) = []"
  obtain s r where sr: "stateAfter doc k = (s, r)" by (cases "stateAfter doc k")
  from a show "stateAfter doc (Suc k) =
        (fst (stateAfter doc k), snd (stateAfter doc k) @ [split_on nl doc ! k])"
    by (simp add: stateAfter_Suc sr listStep_blank)
next
  fix k
  assume a: "k < length (split_on nl doc) \<and> trim (split_on nl doc ! k) \<noteq> []
           \<and> \<not> accepted (split_on nl doc) k (split_on nl doc ! k)"
  obtain s r where sr: "stateAfter doc k = (s, r)" by (cases "stateAfter doc k")
  from a show "stateAfter doc (Suc k) =
        ([], snd (stateAfter doc k) @ closers (fst (stateAfter doc k)) @ [split_on nl doc ! k])"
    by (simp add: stateAfter_Suc sr listStep_rejected)
next
  show "processLists doc =
       join [nl] (snd (stateAfter doc (length (split_on nl doc)))
                  @ closers (fst (stateAfter doc (length (split_on nl doc)))))"
    by (rule processLists_stateAfter)
next
  show "walk lines levels i ls st = foldl (\<lambda>s (j, l). listStep lines levels j l s) st (enumerate i ls)"
    by (rule walk_foldl)
next
  assume "trim line = []"
  then show "listStep lines levels i line (listStack, result) = (listStack, result @ [line])"
    by (rule listStep_blank)
next
  assume "trim line \<noteq> [] \<and> \<not> accepted lines i line"
  then show "listStep lines levels i line (listStack, result) = ([], result @ closers listStack @ [line])"
    by (simp add: listStep_rejected)
next
  show "closeAllLists listStack result = ([], result @ closers listStack)"
    by (rule closeAllLists_closers)
qed

theorem C7_list_walk_witness:
  "stateAfter ''- a\<newline>\<newline>text'' 1 = ([\<lparr>ltype = ''ul'', level = 0\<rparr>], [''<ul>'', ''<li>a</li>''])
   \<and> stateAfter ''- a\<newline>\<newline>text'' 2 = ([\<lparr>ltype = ''ul'', level = 0\<rparr>], [''<ul>'', ''<li>a</li>'', ''''])
   \<and> stateAfter ''- a\<newline>\<newline>text'' 3 = ([], [''<ul>'', ''<li>a</li>'', '''', ''</ul>'', ''text''])
   \<and> processLists ''- a\<newline>\<newline>text'' = ''<ul>\<newline><li>a</li>\<newline>\<newline></ul>\<newline>text''"
proof -
  have e1: "split_on nl ''- a\<newline>\<newline>text'' ! 1 = []"
    by code_simp
  have e2: "split_on nl ''- a\<newline>\<newline>text'' ! 2 = ''text''"
    by code_simp
  have len: "length (split_on nl ''- a\<newline>\<newline>text'') = 3"
    by code_simp
  have s1: "stateAfter ''- a\<newline>\<newline>text'' 1 = ([\<lparr>ltype = ''ul'', level = 0\<rparr>], [''<ul>'', ''<li>a</li>''])"
    by code_simp
  have h1: "1 < length (split_on nl ''- a\<newline>\<newline>text'') \<and> trim (split_on nl ''- a\<newline>\<newline>text'' ! 1) = []"
    by code_simp
  have h2: "2 < length (split_on nl ''- a\<newline>\<newline>text'') \<and> trim (split_on nl ''- a\<newline>\<newline>text'' ! 2) \<noteq> []
            \<and> \<not> accepted (split_on nl ''- a\<newline>\<newline>text'') 2 (split_on nl ''- a\<newline>\<newline>text'' ! 2)"
    by code_simp
  have c: "closers [\<lparr>ltype = ''ul'', level = 0\<rparr>] = [''</ul>'']"
    by code_simp
  have j: "join [nl] ([''<ul>'', ''<li>a</li>'', [], ''</ul>'', ''text''] @ closers [])
             = ''<ul>\<newline><li>a</li>\<newline>\<newline></ul>\<newline>text''"
    by code_simp
  note t = C7_list_walk [of "''- a\<newline>\<newline>text''"]
  from t h1 have s2: "stateAfter ''- a\<newline>\<newline>text'' (Suc 1) =
        (fst (stateAfter ''- a\<newline>\<newline>text'' 1), snd (stateAfter ''- a\<newline>\<newline>text'' 1) @ [split_on nl ''- a\<newline>\<newline>text'' ! 1])"
    by blast
  from t h2 have s3: "stateAfter ''- a\<newline>\<newline>text'' (Suc 2) =
        ([], snd (stateAfter ''- a\<newline>\<newline>text'' 2) @ closers (fst (stateAfter ''- a\<newline>\<newline>text'' 2))
             @ [split_on nl ''- a\<newline>\<newline>text'' ! 2])"
    by blast
  from t have p: "processLists ''- a\<newline>\<newline>text'' =
       join [nl] (snd (stateAfter ''- a\<newline>\<newline>text'' (length (split_on nl ''- a\<newline>\<newline>text'')))
                  @ closers (fst (stateAfter ''- a\<newline>\<newline>text'' (length (split_on nl ''- a\<newline>\<newline>text'')))))"
    by blast
  have n: "Suc 1 = 2" "Suc 2 = 3" by simp_all
  have s2': "stateAfter ''- a\<newline>\<newline>text'' 2 = ([\<lparr>ltype = ''ul'', level = 0\<rparr>], [''<ul>'', ''<li>a</li>'', []])"
    using s2 unfolding n s1 e1 by simp
  have s3': "stateAfter ''- a\<newline>\<newline>text'' 3 = ([], [''<ul>'', ''<li>a</li>'', [], ''</ul>'', ''text''])"
    using s3 unfolding n s2' e2 fst_conv snd_conv c by simp
  have "processLists ''- a\<newline>\<newline>text'' = ''<ul>\<newline><li>a</li>\<newline>\<newline></ul>\<newline>text''"
    using p unfolding len s3' fst_conv snd_conv j .
  with s1 s2' s3' show ?thesis by simp
qed

section \<open>Quote stripping\<close>

lemma fl_s_sel [simp]: "multiline fl_s = False" "ignoreCase fl_s = False" "dotAll fl_s = True"
  by (simp_all add: fl_s_def)

lemma cls_any: "cls_mem fl [S, NS] c"
  by (simp add: cls_mem_def)

lemma cls_quote: "cls_mem fl_s [C dq, C sq, C (CHR ''`'')] c = isQuote c"
  by (auto simp: cls_mem_def isQuote_def)

lemma lazy_any_unfold:
  "ms fl (Star False (Cls [S, NS])) \<lparr>seen = sn, rest = u, caps = cp\<rparr> =
     \<lparr>seen = sn, rest = u, caps = cp\<rparr> #
       (case u of [] \<Rightarrow> [] | c # u' \<Rightarrow> ms fl (Star False (Cls [S, NS])) \<lparr>seen = c # sn, rest = u', caps = cp\<rparr>)"
  by (subst ms.simps(7)) (simp add: cls_any Let_def split: list.split)

lemma quote_end:
  "ms fl_s (Seq (Cls [C dq, C sq, C (CHR ''`'')]) Eol) \<lparr>seen = sn, rest = u, caps = cp\<rparr> =
     (case u of
        [] \<Rightarrow> []
      | c # u' \<Rightarrow> if isQuote c \<and> u' = [] then [\<lparr>seen = c # sn, rest = [], caps = cp\<rparr>] else [])"
  by (simp add: cls_quote split: list.split)

lemma quote_tail:
  "T = pre @ u \<Longrightarrow>
   concat (map (\<lambda>st'. ms fl_s (Seq (Cls [C dq, C sq, C (CHR ''`'')]) Eol)
                         (st'\<lparr>caps := (1, take (length T - length (rest st')) T) # caps st'\<rparr>))
               (ms fl_s (Star False (Cls [S, NS])) \<lparr>seen = sn, rest = u, caps = cp\<rparr>))
   = (if u \<noteq> [] \<and> isQuote (last u)
      then [\<lparr>seen = last u # rev (butlast u) @ sn, rest = [], caps = (1, pre @ butlast u) # cp\<rparr>]
      else [])"
proof (induction u arbitrary: pre sn)
  case Nil
  show ?case by (subst lazy_any_unfold) (simp add: quote_end)
next
  case (Cons c u)
  have T: "T = (pre @ [c]) @ u" using Cons.prems by simp
  note ih = Cons.IH [OF T, of "c # sn"]
  have first: "ms fl_s (Seq (Cls [C dq, C sq, C (CHR ''`'')]) Eol)
                 \<lparr>seen = sn, rest = c # u, caps = (1, take (length T - length (c # u)) T) # cp\<rparr>
               = (if isQuote c \<and> u = [] then [\<lparr>seen = c # sn, rest = [], caps = (1, pre) # cp\<rparr>] else [])"
    unfolding quote_end using Cons.prems by simp
  show ?case
    apply (subst lazy_any_unfold)
    apply (simp only: list.case list.map concat.simps mstate.simps mstate.update_convs)
    apply (simp only: first ih)
    apply (cases "u = []")
     apply (simp add: lazy_any_unfold quote_end)
    apply simp
    done
qed

lemma quoteRe_start:
  "match_at fl_s quoteRe [] s =
     (case s of
        [] \<Rightarrow> None
      | q # t \<Rightarrow>
          if isQuote q \<and> t \<noteq> [] \<and> isQuote (last t)
          then Some \<lparr>seen = last t # rev (butlast t) @ [q], rest = [], caps = [(1, butlast t)]\<rparr>
          else None)"
proof (cases s)
  case Nil
  then show ?thesis by (simp add: quoteRe_def match_at_def)
next
  case (Cons q t)
  have tail: "concat (map (\<lambda>st'. ms fl_s (Seq (Cls [C dq, C sq, C (CHR ''`'')]) Eol)
                         (st'\<lparr>caps := (1, take (length t - length (rest st')) t) # caps st'\<rparr>))
               (ms fl_s (Star False (Cls [S, NS])) \<lparr>seen = [q], rest = t, caps = []\<rparr>))
       = (if t \<noteq> [] \<and> isQuote (last t)
          then [\<lparr>seen = last t # rev (butlast t) @ [q], rest = [], caps = (1, [] @ butlast t) # []\<rparr>]
          else [])"
    by (rule quote_tail) simp
  show ?thesis
    unfolding Cons using tail
    by (simp add: quoteRe_def match_at_def cls_quote consumed_def map_concat comp_def)
qed

lemma quoteRe_later: "sn \<noteq> [] \<Longrightarrow> match_at fl_s quoteRe sn rs = None"
  by (simp add: match_at_def quoteRe_def)

lemma scan_quoteRe_later: "sn \<noteq> [] \<Longrightarrow> scan fl_s quoteRe sn rs = None"
  by (induction rs arbitrary: sn) (simp_all add: quoteRe_later)

lemma scan_quoteRe:
  "scan fl_s quoteRe [] s =
     (if 2 \<le> length s \<and> isQuote (hd s) \<and> isQuote (last s)
      then Some ([], \<lparr>seen = rev s, rest = [], caps = [(1, butlast (tl s))]\<rparr>)
      else None)"
proof (cases s)
  case Nil
  then show ?thesis by (simp add: quoteRe_start)
next
  case (Cons q t)
  show ?thesis
  proof (cases "t = []")
    case True
    with Cons show ?thesis by (simp add: quoteRe_start quoteRe_later)
  next
    case False
    then have r: "last t # rev (butlast t) = rev t"
      by (metis append_butlast_last_id rev.simps(2) rev_append rev_rev_ident append_Cons append_Nil)
    from False have l: "Suc 0 \<le> length t" by (cases t) simp_all
    from Cons False r l show ?thesis
      by (simp add: quoteRe_start scan_quoteRe_later)
  qed
qed

lemma subst_dollar1: "getSubstitution m p f [Some w] ''$1'' = w"
  by (simp add: isDigit_def digitVal_def cc_def capText_def)

text \<open>
  Claim C9, as amended. The quote-stripping step of \<open>normalizeContent\<close> removes the first
  and the last character of the input whenever both are quote characters (double quote,
  single quote or backtick) and the input has at least two characters, whether or not the
  two are the same character; every other input is left unchanged.
\<close>

theorem C9_strip_any_quote_pair:
  "stripQuotes s =
     (if 2 \<le> length s \<and> isQuote (hd s) \<and> isQuote (last s) then butlast (tl s) else s)"
  by (simp add: stripQuotes_def replace_first_def scan_quoteRe apply_repl_def tmpl_def group_def
                subst_dollar1 del: getSubstitution.simps)

theorem C9_strip_any_quote_pair_witness:
  "stripQuotes ([dq] @ ''abc'' @ [dq]) = ''abc'' \<and> stripQuotes ''abc'' = ''abc''"
  using C9_strip_any_quote_pair [of "[dq] @ ''abc'' @ [dq]"] C9_strip_any_quote_pair [of "''abc''"]
  by (simp add: isQuote_def dq_def sq_def)

text \<open>
  Claim C9, as stated, fails: the input \<open>"abc'\<close> begins with a double quote and ends with
  a single quote, and both are stripped.
\<close>

theorem C9_mismatched_quotes_counterexample:
  "isQuote (hd ([dq] @ ''abc'' @ [sq])) \<and> isQuote (last ([dq] @ ''abc'' @ [sq]))
   \<and> hd ([dq] @ ''abc'' @ [sq]) \<noteq> last ([dq] @ ''abc'' @ [sq])
   \<and> stripQuotes ([dq] @ ''abc'' @ [sq]) \<noteq> [dq] @ ''abc'' @ [sq]"
  by code_simp

section \<open>The classification filter on a line that looks like a name\<close>

lemma noflags_sel [simp]: "multiline noflags = False" "ignoreCase noflags = False" "dotAll noflags = False"
  by (simp_all add: noflags_def)

lemma match_at_Bol_later: "\<not> multiline fl \<Longrightarrow> sn \<noteq> [] \<Longrightarrow> match_at fl (Seq Bol r) sn rs = None"
  by (simp add: match_at_def)

lemma scan_Bol_later: "\<not> multiline fl \<Longrightarrow> sn \<noteq> [] \<Longrightarrow> scan fl (Seq Bol r) sn rs = None"
  by (induction rs arbitrary: sn) (simp_all add: match_at_Bol_later)

lemma isLetter1_iff: "isLetter1 s \<longleftrightarrow> (\<exists>c. s = [c] \<and> (isLower c \<or> isUpper c))"
proof (cases s)
  case Nil
  then show ?thesis by (simp add: isLetter1_def re_test_def whole_def match_at_def)
next
  case (Cons c t)
  have "scan noflags (Seq Bol (Seq (Cls [R (CHR ''a'') (CHR ''z''), R (CHR ''A'') (CHR ''Z'')]) Eol)) [c] t = None"
    by (rule scan_Bol_later) simp_all
  with Cons show ?thesis
    by (auto simp: isLetter1_def re_test_def whole_def match_at_def cls_mem_def isLower_def isUpper_def)
qed

lemma flipCase_flipCase: "flipCase (flipCase c) = c"
  by (cases c) (simp add: flipCase_def)

lemma cc_eq_97: "cc c = 97 \<longleftrightarrow> c = CHR ''a''"
proof -
  have "cc (CHR ''a'') = 97" by (simp add: cc_def)
  then show ?thesis by (metis cc_def of_char_eq_iff)
qed

lemma toLower_a: "cc (toLower c) = 97 \<longleftrightarrow> c = CHR ''a'' \<or> c = CHR ''A''"
proof -
  have f: "flipCase (CHR ''a'') = CHR ''A''" by (simp add: flipCase_def)
  have u: "isUpper (CHR ''A'')" "\<not> isUpper (CHR ''a'')" by (simp_all add: isUpper_def)
  show ?thesis
    unfolding cc_eq_97 toLower_def
    using f u flipCase_flipCase by (metis)
qed

lemma alphaLoop_no_a:
  "\<forall>line \<in> set ls. markerAt indent line \<noteq> Some ''a'' \<and> markerAt indent line \<noteq> Some ''A''
   \<Longrightarrow> alphaLoop indent [97] [] ls = False"
proof (induction ls)
  case Nil
  show ?case by simp
next
  case (Cons l ls)
  have "\<not> (\<exists>lineChar. markerAt indent l = Some lineChar \<and> isLetter1 lineChar
                       \<and> cc (toLower (hd lineChar)) = 97)"
    using Cons.prems by (auto simp: isLetter1_iff toLower_a)
  then have "(case markerAt indent l of
               None \<Rightarrow> []
             | Some lineChar \<Rightarrow>
                 if isLetter1 lineChar \<and> cc (toLower (hd lineChar)) \<in> set [97]
                 then List.insert (cc (toLower (hd lineChar))) []
                 else []) = []"
    by (auto split: option.splits)
  with Cons show ?case by (simp add: Let_def)
qed

lemma foldl_contextStep_none:
  "\<forall>j \<in> set js. j = i \<or> re_match noflags contextRe (lines ! j) = None
   \<Longrightarrow> foldl (contextStep lines i marker indent) acc js = acc"
  by (induction js arbitrary: acc) (auto simp: contextStep_def)

lemma sp_bullet: "re_test noflags (whole bulletM) ''B.'' = False"
  by code_simp

lemma sp_content: "afterMarker spielberger ''B.'' = ''Spielberger directed the film.''"
  by code_simp

lemma sp_name: "re_test noflags nameRe ''Spielberger directed the film.'' = False"
  by code_simp

lemma sp_abbrev: "re_test noflags abbrevRe ''Spielberger directed the film.'' = False"
  by code_simp

lemma sp_single: "re_test noflags singleMarkerRe ''B.'' = True"
  by code_simp

lemma sp_base: "stripDelim ''B.'' = ''B''"
  by code_simp

lemma sp_letter: "isLetter1 ''B'' = True" "isNumber ''B'' = False"
  by code_simp+

lemma sp_code: "cc (toLower (CHR ''B'')) = 98"
  by code_simp

lemma sp_title: "re_test noflags (Seq Bol upperC) ''Spielberger directed the film.'' = True"
  "str_includes ''Spielberger directed the film.'' '' '' = True"
  by code_simp+

lemma sp_match:
  "re_match fl_i listRe spielberger =
     Some (spielberger, [(4, ''Spielberger directed the film.''), (2, ''B.''), (1, [])])"
  by code_simp

lemma sp_trim: "trim spielberger \<noteq> []"
  by code_simp

lemma spielberger_rejected:
  assumes i: "i < length lines" and line: "lines ! i = spielberger"
    and window: "\<forall>j. i - 3 \<le> j \<and> j \<le> i + 3 \<and> j < length lines \<and> j \<noteq> i
                     \<longrightarrow> re_match noflags contextRe (lines ! j) = None"
    and chain: "\<forall>j < i. markerAt 0 (lines ! j) \<noteq> Some ''a'' \<and> markerAt 0 (lines ! j) \<noteq> Some ''A''"
  shows "\<not> isActualListItem lines i ''B.'' 0"
proof -
  have ctx: "checkListContext lines i ''B.'' 0 = \<lparr>hasContext = False, nearbyItems = 0\<rparr>"
  proof -
    have "\<forall>j \<in> set [i - 3 ..< Suc (min (length lines - 1) (i + 3))].
            j = i \<or> re_match noflags contextRe (lines ! j) = None"
    proof
      fix j
      assume "j \<in> set [i - 3 ..< Suc (min (length lines - 1) (i + 3))]"
      then have "i - 3 \<le> j" and "j \<le> i + 3" and "j < length lines"
        using i by auto
      then show "j = i \<or> re_match noflags contextRe (lines ! j) = None"
        using window [rule_format, of j] by (cases "j = i") simp_all
    qed
    then show ?thesis
      unfolding checkListContext_def by (rule foldl_contextStep_none)
  qed
  have "\<forall>l \<in> set (rev (take i lines)). markerAt 0 l \<noteq> Some ''a'' \<and> markerAt 0 l \<noteq> Some ''A''"
    using chain i by (auto simp: in_set_conv_nth)
  then have "alphaLoop 0 [97] [] (rev (take i lines)) = False"
    by (rule alphaLoop_no_a)
  moreover have "[97 ..< 98] = [97::nat]" by (simp add: upt_rec)
  ultimately have seq: "hasSequentialMarkers lines i ''B.'' 0 = False"
    by (simp add: hasSequentialMarkers_def sp_base sp_letter verifyAlphabeticalSequence_def sp_code Let_def)
  show ?thesis
    by (simp add: isActualListItem_def sp_bullet line sp_content sp_name sp_abbrev ctx sp_single seq
                  sp_title Let_def)
qed

text \<open>
  Claim C6, as amended. The statement is about the line sequence that the list pass
  (\<open>processLists\<close>) receives, that is the buffer left by the header, emphasis and
  blockquote passes, split at newlines. Wherever the line
  \<open>B. Spielberger directed the film.\<close> stands in that sequence, if no other line within
  three lines of it matches the list pattern of the context check, and no earlier line of
  the sequence carries the marker \<open>a\<close> or \<open>A\<close> at an indent of at most two columns,
  then the classification filter rejects the line: the list pass closes the open lists
  and emits the line unchanged.
\<close>

theorem C6_spielberger_rejected:
  assumes "i < length lines" and "lines ! i = spielberger"
    and "\<forall>j. i - 3 \<le> j \<and> j \<le> i + 3 \<and> j < length lines \<and> j \<noteq> i
              \<longrightarrow> re_match noflags contextRe (lines ! j) = None"
    and "\<forall>j < i. markerAt 0 (lines ! j) \<noteq> Some ''a'' \<and> markerAt 0 (lines ! j) \<noteq> Some ''A''"
  shows "\<not> accepted lines i spielberger
         \<and> listStep lines levels i spielberger (listStack, result)
             = ([], result @ closers listStack @ [spielberger])
         \<and> (lines = split_on nl buf \<longrightarrow>
              stateAfter buf (Suc i)
                = ([], snd (stateAfter buf i) @ closers (fst (stateAfter buf i)) @ [spielberger]))"
proof -
  have r: "\<not> accepted lines i spielberger"
    using spielberger_rejected [OF assms] by (simp add: accepted_def sp_match gtext_def group_def)
  have step: "listStep lines lv i spielberger (s, res) = ([], res @ closers s @ [spielberger])"
    for lv s res
    using r sp_trim by (simp add: listStep_rejected)
  have "stateAfter buf (Suc i)
          = ([], snd (stateAfter buf i) @ closers (fst (stateAfter buf i)) @ [spielberger])"
    if l: "lines = split_on nl buf"
  proof -
    obtain s res where sr: "stateAfter buf i = (s, res)" by (cases "stateAfter buf i")
    from assms(1) l have "i < length (split_on nl buf)" by simp
    from stateAfter_Suc [OF this] assms(2) l step [of "analyzeIndentationLevels lines" s res]
    show ?thesis by (simp add: sr)
  qed
  with r step show ?thesis by blast
qed

theorem C6_spielberger_rejected_witness:
  "\<not> accepted [''Some text.'', spielberger, ''More text.''] 1 spielberger
   \<and> listStep [''Some text.'', spielberger, ''More text.''] [] 1 spielberger ([], [''Some text.''])
       = ([], [''Some text.'', spielberger])
   \<and> stateAfter ''Some text.\<newline>B. Spielberger directed the film.\<newline>More text.'' 2
       = ([], [''Some text.'', spielberger])"
proof -
  have h1: "1 < length [''Some text.'', spielberger, ''More text.'']" by simp
  have h2: "[''Some text.'', spielberger, ''More text.''] ! 1 = spielberger" by simp
  have m0: "re_match noflags contextRe ''Some text.'' = None" by code_simp
  have m2: "re_match noflags contextRe ''More text.'' = None" by code_simp
  have h3: "\<forall>j. 1 - 3 \<le> j \<and> j \<le> 1 + 3 \<and> j < length [''Some text.'', spielberger, ''More text.''] \<and> j \<noteq> 1
              \<longrightarrow> re_match noflags contextRe ([''Some text.'', spielberger, ''More text.''] ! j) = None"
    using m0 m2 by (auto simp: less_Suc_eq numeral_3_eq_3 nth_Cons')
  have k0: "markerAt 0 ''Some text.'' = None" by code_simp
  have h4: "\<forall>j < 1. markerAt 0 ([''Some text.'', spielberger, ''More text.''] ! j) \<noteq> Some ''a''
                    \<and> markerAt 0 ([''Some text.'', spielberger, ''More text.''] ! j) \<noteq> Some ''A''"
    using k0 by simp
  have l: "[''Some text.'', spielberger, ''More text.'']
             = split_on nl ''Some text.\<newline>B. Spielberger directed the film.\<newline>More text.''"
    by code_simp
  have s1: "stateAfter ''Some text.\<newline>B. Spielberger directed the film.\<newline>More text.'' 1
              = ([], [''Some text.''])"
    by code_simp
  have n: "Suc 1 = 2" by simp
  note t = C6_spielberger_rejected [OF h1 h2 h3 h4, of "[]" "[]" "[''Some text.'']"
             "''Some text.\<newline>B. Spielberger directed the film.\<newline>More text.''"]
  from t l have "stateAfter ''Some text.\<newline>B. Spielberger directed the film.\<newline>More text.'' (Suc 1)
       = ([], snd (stateAfter ''Some text.\<newline>B. Spielberger directed the film.\<newline>More text.'' 1)
              @ closers (fst (stateAfter ''Some text.\<newline>B. Spielberger directed the film.\<newline>More text.'' 1))
              @ [spielberger])"
    by blast
  then have s2: "stateAfter ''Some text.\<newline>B. Spielberger directed the film.\<newline>More text.'' 2
       = ([], [''Some text.'', spielberger])"
    unfolding n s1 fst_conv snd_conv by (simp add: closers_def)
  from t have "\<not> accepted [''Some text.'', spielberger, ''More text.''] 1 spielberger
   \<and> listStep [''Some text.'', spielberger, ''More text.''] [] 1 spielberger ([], [''Some text.''])
       = ([], [''Some text.'', spielberger])"
    by (simp add: closers_def)
  with s2 show ?thesis by simp
qed

text \<open>
  Claim C6, as stated, fails: with the item \<open>a. x\<close> four lines above, no line within three
  lines is list-like (they are empty), yet the sequence check finds the complete chain
  \<open>a\<close> before \<open>B\<close> and the line becomes a list item.
\<close>

theorem C6_window_counterexample:
  "re_match fl_i listRe ([''a. x'', '''', '''', '''', spielberger] ! 1) = None
   \<and> re_match fl_i listRe ([''a. x'', '''', '''', '''', spielberger] ! 2) = None
   \<and> re_match fl_i listRe ([''a. x'', '''', '''', '''', spielberger] ! 3) = None
   \<and> accepted [''a. x'', '''', '''', '''', spielberger] 4 spielberger
   \<and> convertMarkdownToHTML ''a. x\<newline>\<newline>\<newline>\<newline>B. Spielberger directed the film.''
       = ''<ol><li>x</li></ol><ol><li>Spielberger directed the film.</li></ol>''"
  by code_simp

section \<open>Nesting depth is the sorted rank of the indent width\<close>

lemma ms_Seq_mem:
  "st' \<in> set (ms fl (Seq a b) st) \<longleftrightarrow> (\<exists>m \<in> set (ms fl a st). st' \<in> set (ms fl b m))"
  by auto

lemma ms_Star_mem:
  "st' \<in> set (ms fl (Star g r) st) \<longleftrightarrow>
     st' = st \<or> (\<exists>m \<in> set (ms fl r st). length (rest m) < length (rest st) \<and> st' \<in> set (ms fl (Star g r) m))"
  by (subst ms.simps(7)) (auto simp: Let_def split: if_splits)

lemma lit_match_caps: "st' \<in> set (lit_match fl w st) \<Longrightarrow> caps st' = caps st"
proof (induction w arbitrary: st)
  case Nil
  then show ?case by simp
next
  case (Cons x xs)
  show ?case
  proof (cases "rest st")
    case Nil
    with Cons.prems show ?thesis by simp
  next
    case (Cons c cs)
    with Cons.prems have "st' \<in> set (lit_match fl xs (st\<lparr>seen := c # seen st, rest := cs\<rparr>))"
      by (simp split: if_splits)
    from Cons.IH [OF this] show ?thesis by simp
  qed
qed

lemma ms_caps_other:
  "st' \<in> set (ms fl r st) \<Longrightarrow> i \<notin> set (groupsOf r) \<Longrightarrow> map_of (caps st') i = map_of (caps st) i"
proof (induction fl r st arbitrary: st' rule: ms.induct)
  case (1 fl w st)
  then show ?case by (simp add: lit_match_caps)
next
  case (2 fl cs st)
  then show ?case by (cases "rest st") (auto split: if_splits)
next
  case (3 fl cs st)
  then show ?case by (cases "rest st") (auto split: if_splits)
next
  case (4 fl st)
  then show ?case by (cases "rest st") (auto split: if_splits)
next
  case (5 fl a b st)
  from "5.prems"(1) obtain m where m: "m \<in> set (ms fl a st)" and s: "st' \<in> set (ms fl b m)"
    by auto
  from "5.prems"(2) have ia: "i \<notin> set (groupsOf a)" and ib: "i \<notin> set (groupsOf b)" by simp_all
  from "5.IH"(1) [OF m ia] "5.IH"(2) [OF m s ib] show ?case by simp
next
  case (6 fl a b st)
  then show ?case by auto
next
  case (7 fl g r st)
  from "7.prems"(2) have ir: "i \<notin> set (groupsOf r)" by simp
  from "7.prems"(1) have "st' = st \<or> (\<exists>m \<in> set (ms fl r st). length (rest m) < length (rest st)
                                    \<and> st' \<in> set (ms fl (Star g r) m))"
    by (simp add: ms_Star_mem [symmetric])
  then show ?case
  proof
    assume "st' = st"
    then show ?thesis by simp
  next
    assume "\<exists>m \<in> set (ms fl r st). length (rest m) < length (rest st) \<and> st' \<in> set (ms fl (Star g r) m)"
    then obtain m where m: "m \<in> set (ms fl r st)" and l: "length (rest m) < length (rest st)"
      and s: "st' \<in> set (ms fl (Star g r) m)" by auto
    from "7.IH"(1) [OF m ir] "7.IH"(2) [OF m l s "7.prems"(2)] show ?thesis by simp
  qed
next
  case (8 fl j r st)
  from "8.prems"(1) obtain m where m: "m \<in> set (ms fl r st)"
    and s: "st' = m\<lparr>caps := (j, consumed st m) # caps m\<rparr>" by auto
  from "8.prems"(2) have ij: "i \<noteq> j" and ir: "i \<notin> set (groupsOf r)" by auto
  from "8.IH" [OF m ir] s ij show ?case by simp
next
  case (9 fl j st)
  then show ?case by (auto split: option.splits simp: lit_match_caps)
next
  case (10 fl st)
  then show ?case by (auto split: if_splits)
next
  case (11 fl st)
  then show ?case by (auto split: if_splits)
next
  case (12 fl st)
  then show ?case by (auto split: if_splits)
next
  case (13 fl cs st)
  then show ?case by (cases "seen st") (auto split: if_splits)
next
  case (14 fl cs st)
  then show ?case by (cases "rest st") (auto split: if_splits)
qed

lemma lit_match_startsInk:
  "w \<noteq> [] \<Longrightarrow> \<not> isSpace (hd w) \<Longrightarrow> rest st = [] \<or> isSpace (hd (rest st)) \<Longrightarrow> lit_match fl w st = []"
  by (cases w; cases "rest st") (auto simp: chr_eq_def swapCase_space)

lemma ms_startsInk:
  "startsInk fl r \<Longrightarrow> rest st = [] \<or> isSpace (hd (rest st)) \<Longrightarrow> ms fl r st = []"
proof (induction r arbitrary: st)
  case (Lit w)
  then show ?case by (simp add: lit_match_startsInk)
next
  case (Cls cs)
  then show ?case by (cases "rest st") (auto simp: list_all_iff isSpace_spaces)
next
  case (NCls cs)
  then show ?case by (cases "rest st") (auto simp: list_all_iff isSpace_spaces)
next
  case (Seq a b)
  then show ?case by simp
next
  case (Alt a b)
  then show ?case by simp
next
  case (Grp i r)
  then show ?case by simp
qed simp_all

lemma isSpace_flipCase: "isUpper c \<or> isLower c \<Longrightarrow> \<not> isSpace (flipCase c)"
  by (cases c) (auto simp: isUpper_def isLower_def isSpace_def flipCase_def)

lemma cls_space: "cls_mem fl [S] c = isSpace c"
  using isSpace_flipCase [of c] by (auto simp: cls_mem_def swapCase_def)

lemma ws_results:
  "st1 \<in> set (ms fl (Star g (Cls [S])) st) \<Longrightarrow>
     \<exists>pre. rest st = pre @ rest st1 \<and> blank pre \<and> caps st1 = caps st"
proof (induction "length (rest st)" arbitrary: st rule: less_induct)
  case less
  from less.prems have "st1 = st \<or> (\<exists>m \<in> set (ms fl (Cls [S]) st). length (rest m) < length (rest st)
                                      \<and> st1 \<in> set (ms fl (Star g (Cls [S])) m))"
    by (rule ms_Star_mem [THEN iffD1])
  then show ?case
  proof
    assume "st1 = st"
    then show ?thesis by (auto simp: blank_def)
  next
    assume "\<exists>m \<in> set (ms fl (Cls [S]) st). length (rest m) < length (rest st)
              \<and> st1 \<in> set (ms fl (Star g (Cls [S])) m)"
    then obtain m where m: "m \<in> set (ms fl (Cls [S]) st)" and l: "length (rest m) < length (rest st)"
      and s: "st1 \<in> set (ms fl (Star g (Cls [S])) m)" by auto
    from m obtain c cs where r: "rest st = c # cs" and c: "isSpace c"
      and me: "m = st\<lparr>seen := c # seen st, rest := cs\<rparr>"
      by (cases "rest st") (auto simp: cls_space split: if_splits)
    from less.hyps [OF l s] obtain pre where p: "rest m = pre @ rest st1" "blank pre" "caps st1 = caps m"
      by auto
    with r c me have "rest st = (c # pre) @ rest st1 \<and> blank (c # pre) \<and> caps st1 = caps st"
      by (simp add: blank_Cons)
    then show ?thesis by blast
  qed
qed

lemma takeWhile_blank_prefix:
  "blank pre \<Longrightarrow> r \<noteq> [] \<Longrightarrow> \<not> isSpace (hd r) \<Longrightarrow> takeWhile isSpace (pre @ r) = pre"
  by (cases r) (auto simp: blank_def list_all_iff takeWhile_append)

text \<open>Every match of a pattern \<open>^(\s*)M...\<close>, where \<open>M\<close> begins with a character other
  than whitespace, captures the leading whitespace of the input in its group 1.\<close>

lemma indent_group:
  assumes st': "st' \<in> set (ms fl (Seq Bol (Seq (Grp 1 ws) (Seq M T))) \<lparr>seen = [], rest = line, caps = []\<rparr>)"
    and M: "startsInk fl M" and g: "1 \<notin> set (groupsOf M)" "1 \<notin> set (groupsOf T)"
  shows "map_of (caps st') 1 = Some (takeWhile isSpace line)"
proof -
  let ?st0 = "\<lparr>seen = [], rest = line, caps = []\<rparr>"
  from st' have "st' \<in> set (ms fl (Seq (Grp 1 ws) (Seq M T)) ?st0)"
    by simp
  then obtain st1 where st1: "st1 \<in> set (ms fl (Grp 1 ws) ?st0)" and a: "st' \<in> set (ms fl (Seq M T) st1)"
    unfolding ms_Seq_mem by blast
  from st1 obtain s1 where s1: "s1 \<in> set (ms fl ws ?st0)"
    and e1: "st1 = s1\<lparr>caps := (1, consumed ?st0 s1) # caps s1\<rparr>" by auto
  from ws_results [OF s1 [unfolded ws_def]] obtain pre
    where p: "line = pre @ rest s1" "blank pre" "caps s1 = []" by auto
  from a obtain st2 where st2: "st2 \<in> set (ms fl M st1)"
    unfolding ms_Seq_mem by blast
  then have "ms fl M st1 \<noteq> []" by auto
  with ms_startsInk [OF M, of st1] have "rest st1 \<noteq> [] \<and> \<not> isSpace (hd (rest st1))"
    by blast
  with e1 have n: "rest s1 \<noteq> []" "\<not> isSpace (hd (rest s1))" by simp_all
  have tw: "takeWhile isSpace line = pre"
    unfolding p(1) using p(2) n by (rule takeWhile_blank_prefix)
  have c: "consumed ?st0 s1 = pre"
    using p(1) by (simp add: consumed_def)
  have "map_of (caps st') 1 = map_of (caps st1) 1"
    using ms_caps_other [OF a] g by simp
  with e1 c tw show ?thesis by simp
qed

lemma ms_Bol_start:
  "ms fl (Seq Bol r) \<lparr>seen = [], rest = s, caps = c\<rparr> = ms fl r \<lparr>seen = [], rest = s, caps = c\<rparr>"
  by simp

lemma scan_Bol_start:
  "\<not> multiline fl \<Longrightarrow> scan fl (Seq Bol r) [] s = map_option (Pair []) (match_at fl (Seq Bol r) [] s)"
  by (cases s) (auto simp: scan_Bol_later split: option.splits)

lemma match_at_mem: "match_at fl r sn rs = Some st \<Longrightarrow> st \<in> set (ms fl r \<lparr>seen = sn, rest = rs, caps = []\<rparr>)"
  by (auto simp: match_at_def split: list.splits)

lemma fl_i_sel [simp]: "multiline fl_i = False" "ignoreCase fl_i = True" "dotAll fl_i = False"
  by (simp_all add: fl_i_def)

lemma markerRe_startsInk: "startsInk fl_i (Grp 2 markerRe)"
  by code_simp

lemma listRe_shape:
  "listRe = Seq Bol (Seq (Grp 1 ws) (Seq (Grp 2 markerRe)
              (Seq ws1 (Seq (Opt (Grp 3 (seqs [Lit ''['', Cls [C (CHR '' ''), C (CHR ''x'')], Lit '']'', ws1])))
                            (Seq (Grp 4 (Star True Dot)) Eol)))))"
  by (simp add: listRe_def)

lemma indentRe_shape: "indentRe = Seq Bol (Seq (Grp 1 ws) (Seq (Grp 2 markerRe) ws1))"
  by (simp add: indentRe_def)

lemma groups_marker: "1 \<notin> set (groupsOf (Grp 2 markerRe))" "1 \<notin> set (groupsOf ws1)"
  "1 \<notin> set (groupsOf (Seq ws1 (Seq (Opt (Grp 3 (seqs [Lit ''['', Cls [C (CHR '' ''), C (CHR ''x'')], Lit '']'', ws1])))
                            (Seq (Grp 4 (Star True Dot)) Eol))))"
  by code_simp+

lemma candidate_indent:
  assumes "re_match fl_i listRe line = Some (m, cp)"
  shows "gtext cp 1 = takeWhile isSpace line \<and> lineIndent line = Some (length (takeWhile isSpace line))"
proof -
  let ?st0 = "\<lparr>seen = [], rest = line, caps = []\<rparr>"
  let ?tail = "Seq ws1 (Seq (Opt (Grp 3 (seqs [Lit ''['', Cls [C (CHR '' ''), C (CHR ''x'')], Lit '']'', ws1])))
                            (Seq (Grp 4 (Star True Dot)) Eol))"
  from assms obtain st where ma: "match_at fl_i listRe [] line = Some st" and cp: "cp = caps st"
    unfolding re_match_def listRe_shape
    by (auto simp: scan_Bol_start split: option.splits)
  from match_at_mem [OF ma] have mem: "st \<in> set (ms fl_i listRe ?st0)" .
  then have g1: "map_of (caps st) 1 = Some (takeWhile isSpace line)"
    unfolding listRe_shape
    by (rule indent_group) (rule markerRe_startsInk groups_marker)+
  from mem obtain st1 st2 st3 where
      a1: "st1 \<in> set (ms fl_i (Grp 1 ws) ?st0)" and a2: "st2 \<in> set (ms fl_i (Grp 2 markerRe) st1)"
      and a3: "st3 \<in> set (ms fl_i ws1 st2)"
    unfolding listRe_shape ms_Bol_start ms_Seq_mem by blast
  then have "st3 \<in> set (ms fl_i indentRe ?st0)"
    unfolding indentRe_shape ms_Bol_start ms_Seq_mem by blast
  then obtain st' where mi: "match_at fl_i indentRe [] line = Some st'"
    by (cases "ms fl_i indentRe ?st0") (auto simp: match_at_def)
  from match_at_mem [OF mi] have "st' \<in> set (ms fl_i indentRe ?st0)" .
  then have g2: "map_of (caps st') 1 = Some (takeWhile isSpace line)"
    unfolding indentRe_shape
    by (rule indent_group) (rule markerRe_startsInk groups_marker)+
  have "lineIndent line = Some (length (takeWhile isSpace line))"
    using mi g2 unfolding lineIndent_def re_match_def indentRe_shape
    by (simp add: scan_Bol_start gtext_def group_def)
  with g1 cp show ?thesis by (simp add: gtext_def group_def)
qed

lemma candidate_indent_used:
  assumes "line \<in> set lines" and "re_match fl_i listRe line = Some (m, cp)"
  shows "length (gtext cp 1) \<in> set (usedIndents lines)"
proof -
  from candidate_indent [OF assms(2)] have "lineIndent line = Some (length (gtext cp 1))"
    by simp
  with assms(1) show ?thesis
    by (auto simp: usedIndents_def List.map_filter_def image_iff intro!: bexI [of _ line])
qed


lemma map_of_map_set: "map_of (map_set m k v) = (map_of m)(k \<mapsto> v)"
  by (induction m) (auto simp: fun_eq_iff)

lemma keys_map_set: "fst ` set (map_set m k v) = insert k (fst ` set m)"
  by (induction m k v rule: map_set.induct) (simp_all add: insert_commute)

lemma distinct_map_set: "distinct (map fst m) \<Longrightarrow> distinct (map fst (map_set m k v))"
  by (induction m) (auto simp: keys_map_set)

lemma keys_countIndent:
  "fst ` set (countIndent m line) =
     fst ` set m \<union> (case lineIndent line of None \<Rightarrow> {} | Some w \<Rightarrow> {w})"
  by (simp add: countIndent_def keys_map_set split: option.split)

lemma distinct_countIndent: "distinct (map fst m) \<Longrightarrow> distinct (map fst (countIndent m line))"
  by (simp add: countIndent_def distinct_map_set split: option.split)

lemma usedIndents_Cons:
  "set (usedIndents (l # ls)) =
     (case lineIndent l of None \<Rightarrow> {} | Some w \<Rightarrow> {w}) \<union> set (usedIndents ls)"
  by (simp add: usedIndents_def List.map_filter_simps split: option.split)

lemma keys_foldl_countIndent:
  "fst ` set (foldl countIndent m lines) = fst ` set m \<union> set (usedIndents lines)"
proof (induction lines arbitrary: m)
  case Nil
  show ?case by (simp add: usedIndents_def List.map_filter_simps)
next
  case (Cons l ls)
  show ?case
    by (simp add: Cons.IH keys_countIndent usedIndents_Cons Un_assoc)
qed

lemma distinct_foldl_countIndent:
  "distinct (map fst m) \<Longrightarrow> distinct (map fst (foldl countIndent m lines))"
  by (induction lines arbitrary: m) (simp_all add: distinct_countIndent)

lemma setLevels_other: "x \<notin> set xs \<Longrightarrow> map_of (setLevels m i xs) x = map_of m x"
  by (induction xs arbitrary: m i) (auto simp: map_of_map_set)

lemma setLevels_rank:
  "sorted xs \<Longrightarrow> distinct xs \<Longrightarrow> x \<in> set xs \<Longrightarrow>
   map_of (setLevels m i xs) x = Some (i + card {v \<in> set xs. v < x})"
proof (induction xs arbitrary: m i)
  case Nil
  then show ?case by simp
next
  case (Cons a xs)
  show ?case
  proof (cases "x = a")
    case True
    have "{v \<in> set (a # xs). v < a} = {}" using Cons.prems by auto
    with True Cons.prems show ?thesis
      by (simp add: setLevels_other map_of_map_set)
  next
    case False
    with Cons.prems have xin: "x \<in> set xs" and ax: "a < x" and anin: "a \<notin> set xs"
      by (auto simp: le_less)
    have "{v \<in> set (a # xs). v < x} = insert a {v \<in> set xs. v < x}" using ax by auto
    moreover have "a \<notin> {v \<in> set xs. v < x}" using anin by simp
    ultimately have "card {v \<in> set (a # xs). v < x} = Suc (card {v \<in> set xs. v < x})"
      by simp
    with Cons.IH [of "map_set m a i" "Suc i"] Cons.prems xin show ?thesis by simp
  qed
qed

lemma level_is_rank:
  assumes "w \<in> set (usedIndents lines)"
  shows "calculateNestingLevel w (analyzeIndentationLevels lines)
         = card {v \<in> set (usedIndents lines). v < w}"
proof -
  let ?keys = "map fst (foldl countIndent [] lines)"
  have s: "set (sort ?keys) = set (usedIndents lines)"
    using keys_foldl_countIndent [of "[]" lines] by simp
  have d: "distinct (sort ?keys)"
    using distinct_foldl_countIndent [of "[]" lines] by simp
  have "map_of (setLevels [] 0 (sort ?keys)) w = Some (0 + card {v \<in> set (sort ?keys). v < w})"
    by (rule setLevels_rank) (use s d assms in simp_all)
  then show ?thesis
    by (simp add: calculateNestingLevel_def analyzeIndentationLevels_def map_get_def s del: set_sort)
qed

text \<open>
  Claim C5. For every document, an indent width used by a line of the marker grammar is
  assigned the rank of the width among the distinct used widths, in ascending order: the
  number of used widths below it. So the depth does not decrease when the width grows,
  and the smallest used width has depth 0. The indent width of every line that
  \<open>processLists\<close> takes for a list candidate is one of the used widths.
\<close>

theorem C5_depth_is_sorted_rank:
  assumes "w1 \<in> set (usedIndents lines)" and "w2 \<in> set (usedIndents lines)"
  shows "calculateNestingLevel w1 (analyzeIndentationLevels lines)
           = card {v \<in> set (usedIndents lines). v < w1}
         \<and> (w1 \<le> w2 \<longrightarrow>
              calculateNestingLevel w1 (analyzeIndentationLevels lines)
                \<le> calculateNestingLevel w2 (analyzeIndentationLevels lines))
         \<and> ((\<forall>v \<in> set (usedIndents lines). w1 \<le> v) \<longrightarrow>
              calculateNestingLevel w1 (analyzeIndentationLevels lines) = 0)
         \<and> (\<forall>line m cp. line \<in> set lines \<and> re_match fl_i listRe line = Some (m, cp) \<longrightarrow>
              length (gtext cp 1) \<in> set (usedIndents lines))"
proof -
  have mono: "w1 \<le> w2 \<longrightarrow> card {v \<in> set (usedIndents lines). v < w1}
                             \<le> card {v \<in> set (usedIndents lines). v < w2}"
    by (auto intro!: card_mono)
  have least: "(\<forall>v \<in> set (usedIndents lines). w1 \<le> v) \<longrightarrow>
                 {v \<in> set (usedIndents lines). v < w1} = {}"
    by auto
  have cand: "\<forall>line m cp. line \<in> set lines \<and> re_match fl_i listRe line = Some (m, cp) \<longrightarrow>
                 length (gtext cp 1) \<in> set (usedIndents lines)"
    using candidate_indent_used by blast
  show ?thesis
    using mono least cand by (simp add: level_is_rank assms)
qed

theorem C5_depth_is_sorted_rank_witness:
  "calculateNestingLevel 0 (analyzeIndentationLevels [''- a'', ''      - b'', ''text'', ''  1. c'']) = 0
   \<and> calculateNestingLevel 0 (analyzeIndentationLevels [''- a'', ''      - b'', ''text'', ''  1. c''])
       \<le> calculateNestingLevel 6 (analyzeIndentationLevels [''- a'', ''      - b'', ''text'', ''  1. c''])
   \<and> usedIndents [''- a'', ''      - b'', ''text'', ''  1. c''] = [0, 6, 2]
   \<and> length (gtext [(4, ''c''), (2, ''1.''), (1, ''  '')] 1)
       \<in> set (usedIndents [''- a'', ''      - b'', ''text'', ''  1. c''])"
proof -
  have u: "usedIndents [''- a'', ''      - b'', ''text'', ''  1. c''] = [0, 6, 2]"
    by code_simp
  have h1: "0 \<in> set (usedIndents [''- a'', ''      - b'', ''text'', ''  1. c''])"
    and h2: "6 \<in> set (usedIndents [''- a'', ''      - b'', ''text'', ''  1. c''])"
    by (simp_all add: u)
  have h3: "re_match fl_i listRe ''  1. c'' = Some (''  1. c'', [(4, ''c''), (2, ''1.''), (1, ''  '')])"
    by code_simp
  have h4: "''  1. c'' \<in> set [''- a'', ''      - b'', ''text'', ''  1. c'']"
    by simp
  from C5_depth_is_sorted_rank [OF h1 h2] h3 h4
  have "length (gtext [(4, ''c''), (2, ''1.''), (1, ''  '')] 1)
          \<in> set (usedIndents [''- a'', ''      - b'', ''text'', ''  1. c''])"
    by blast
  with C5_depth_is_sorted_rank [OF h1 h2] u show ?thesis
    by simp
qed

section \<open>Blocks that are already block-level\<close>

text \<open>
  Claim C8. The comment in \<open>processParagraphs\<close> (\<open>Don't wrap block elements in
  paragraphs\<close>) states the claim, but the test it introduces looks only at the first and the
  last characters of a blank-line-delimited block. For the document
  \<open>text\<newline># Title\<newline>more\<close> the header pass produces a heading element in the middle
  of a block; \<open>processParagraphs\<close> receives the block with the heading inside, finds
  neither a block-level opening tag at its start nor a closing tag at its end, and wraps
  the whole block: the final output holds the \<open>h1\<close> element inside a \<open>p\<close> element. Blank
  lines around the heading do not help: the heading pattern of \<open>processHeaders\<close> consumes
  the blank line before and after the heading line, so the heading joins the neighbouring
  text in one block and is wrapped as well. A heading at the start of the document is not
  wrapped.
\<close>

theorem C8_heading_wrapped_in_paragraph:
  "processHeaders ''text\<newline># Title\<newline>more'' = ''text\<newline><h1>Title</h1>\<newline>more''
   \<and> isBlockElement ''<h1>Title</h1>''
   \<and> \<not> isBlockElement ''text\<newline><h1>Title</h1>\<newline>more''
   \<and> processParagraphs ''text\<newline><h1>Title</h1>\<newline>more'' = ''<p>text<br><h1>Title</h1><br>more</p>''
   \<and> convertMarkdownToHTML ''text\<newline># Title\<newline>more'' = ''<p>text<br><h1>Title</h1>more</p>''
   \<and> processHeaders ''text\<newline>\<newline># Title\<newline>\<newline>more'' = ''text\<newline><h1>Title</h1>\<newline>more''
   \<and> convertMarkdownToHTML ''text\<newline>\<newline># Title\<newline>\<newline>more'' = ''<p>text<br><h1>Title</h1>more</p>''
   \<and> convertMarkdownToHTML ''# Title\<newline>\<newline>more'' = ''<h1>Title</h1><p>more</p>''"
  by code_simp

section \<open>Restoring protected fragments\<close>

lemma getSubstitution_plain: "CHR ''$'' \<notin> set t \<Longrightarrow> getSubstitution m p f cs t = t"
  by (induction m p f cs t rule: getSubstitution.induct) auto

lemma indexOf_first:
  "indexOf key text = Some k \<Longrightarrow>
     isPrefix key (drop k text) \<and> (\<forall>j<k. \<not> isPrefix key (drop j text)) \<and> k \<le> length text"
proof (induction "text" arbitrary: k)
  case Nil
  then show ?case by (simp split: if_splits)
next
  case (Cons c cs)
  show ?case
  proof (cases "isPrefix key (c # cs)")
    case True
    with Cons.prems show ?thesis by simp
  next
    case False
    with Cons.prems obtain k' where k: "k = Suc k'" and i: "indexOf key cs = Some k'"
      by auto
    from Cons.IH [OF i] False k show ?thesis
      by (auto simp: less_Suc_eq_0_disj)
  qed
qed

lemma str_replace_from_first:
  "str_replace_from key t sn text =
     (case indexOf key text of
        None \<Rightarrow> text
      | Some k \<Rightarrow> take k text
                  @ getSubstitution key (rev sn @ take k text) (drop (k + length key) text) [] t
                  @ drop (k + length key) text)"
proof (induction "text" arbitrary: sn)
  case Nil
  show ?case by simp
next
  case (Cons c cs)
  show ?case
    by (cases "isPrefix key (c # cs)") (simp_all add: Cons.IH split: option.splits)
qed

lemma isPrefix_prefix: "isPrefix xs ys = prefix xs ys"
  by (induction xs ys rule: isPrefix.induct) simp_all

lemma indexOf_None: "indexOf key s = None \<Longrightarrow> \<not> prefix key (drop k s)"
proof (induction s arbitrary: k)
  case Nil
  then show ?case by (simp split: if_splits)
next
  case (Cons c cs)
  from Cons.prems have n: "\<not> prefix key (c # cs)" and i: "indexOf key cs = None"
    by (simp_all add: isPrefix_prefix split: if_splits)
  show ?case
  proof (cases k)
    case 0
    with n show ?thesis by simp
  next
    case (Suc k')
    with Cons.IH [OF i] show ?thesis by simp
  qed
qed

lemma indexOf_least:
  assumes p: "prefix key (drop k s)" and least: "\<forall>j<k. \<not> prefix key (drop j s)"
  shows "indexOf key s = Some k"
proof (cases "indexOf key s")
  case None
  from indexOf_None [OF None] p show ?thesis by blast
next
  case (Some k')
  from indexOf_first [OF Some] have p': "prefix key (drop k' s)"
    and least': "\<forall>j<k'. \<not> prefix key (drop j s)"
    by (simp_all add: isPrefix_prefix)
  have "k' = k"
  proof (rule ccontr)
    assume "k' \<noteq> k"
    then consider "k' < k" | "k < k'" by linarith
    then show False
      using p p' least least' by cases simp_all
  qed
  with Some show ?thesis by simp
qed

lemma str_replace_absent:
  assumes "\<forall>k. \<not> prefix key (drop k s)"
  shows "str_replace key frag s = s"
proof -
  have "indexOf key s = None"
  proof (cases "indexOf key s")
    case (Some k)
    from indexOf_first [OF Some] assms show ?thesis by (simp add: isPrefix_prefix)
  qed simp
  then show ?thesis
    by (simp add: str_replace_def str_replace_from_first)
qed

lemma str_replace_first:
  assumes "prefix key (drop k s)" and "\<forall>j<k. \<not> prefix key (drop j s)"
  shows "str_replace key frag s =
           take k s @ getSubstitution key (take k s) (drop (k + length key) s) [] frag
           @ drop (k + length key) s"
  using indexOf_least [OF assms] by (simp add: str_replace_def str_replace_from_first)

lemma restoreLoop_foldl:
  "restoreLoop key i bs buf = foldl (\<lambda>t (j, b). str_replace (key j) b t) buf (enumerate i bs)"
  by (induction bs arbitrary: i buf) simp_all

lemma restoreCodeBlocks_foldl:
  "restoreCodeBlocks buf cbs ics =
     foldl (\<lambda>t (i, b). str_replace (''__INLINE_CODE_'' @ showNat i @ ''__'') b t)
       (foldl (\<lambda>t (i, b). str_replace (''__CODE_BLOCK_'' @ showNat i @ ''__'') b t) buf (enumerate 0 cbs))
       (enumerate 0 ics)"
  by (simp add: restoreCodeBlocks_def restoreLoop_foldl codeBlockKey_def inlineCodeKey_def)

lemma showNat_0: "showNat 0 = ''0''"
  by code_simp

lemma restore_single_block:
  assumes least: "\<forall>j<length pre. \<not> prefix ''__CODE_BLOCK_0__'' (drop j (pre @ ''__CODE_BLOCK_0__'' @ post))"
    and plain: "CHR ''$'' \<notin> set frag"
  shows "restoreCodeBlocks (pre @ ''__CODE_BLOCK_0__'' @ post) [frag] [] = pre @ frag @ post"
proof -
  have p: "prefix ''__CODE_BLOCK_0__'' (drop (length pre) (pre @ ''__CODE_BLOCK_0__'' @ post))"
    by simp
  have "str_replace ''__CODE_BLOCK_0__'' frag (pre @ ''__CODE_BLOCK_0__'' @ post) = pre @ frag @ post"
    unfolding str_replace_first [OF p least] getSubstitution_plain [OF plain]
    by simp
  then show ?thesis
    by (simp add: restoreCodeBlocks_foldl showNat_0)
qed

text \<open>
  Claim C2, as amended. A placeholder key is ordinary text (\<open>__CODE_BLOCK_i__\<close> or
  \<open>__INLINE_CODE_i__\<close>, with \<open>i\<close> the index of the stored fragment in decimal) and
  restoration finds it by text search: \<open>restoreCodeBlocks\<close> goes through the stored code
  blocks in index order and then through the stored inline fragments in index order, and
  for each one replaces the first occurrence of its key text in the buffer, whoever wrote
  it, by the fragment expanded as a replacement pattern; it changes nothing when the key
  text occurs nowhere. A fragment without \<open>$\<close> is inserted as it is. A single stored block
  returns to the place of its placeholder when the key text does not occur earlier in the
  buffer.
\<close>

theorem C2_restore_by_first_occurrence:
  "restoreCodeBlocks buf cbs ics =
     foldl (\<lambda>t (i, b). str_replace (''__INLINE_CODE_'' @ showNat i @ ''__'') b t)
       (foldl (\<lambda>t (i, b). str_replace (''__CODE_BLOCK_'' @ showNat i @ ''__'') b t) buf (enumerate 0 cbs))
       (enumerate 0 ics)
   \<and> ((\<forall>k. \<not> prefix key (drop k s)) \<longrightarrow> str_replace key frag s = s)
   \<and> (\<forall>k. prefix key (drop k s) \<and> (\<forall>j<k. \<not> prefix key (drop j s)) \<longrightarrow>
         str_replace key frag s =
           take k s @ getSubstitution key (take k s) (drop (k + length key) s) [] frag
           @ drop (k + length key) s)
   \<and> (CHR ''$'' \<notin> set frag \<longrightarrow> getSubstitution key p f [] frag = frag)
   \<and> ((\<forall>j<length pre. \<not> prefix ''__CODE_BLOCK_0__'' (drop j (pre @ ''__CODE_BLOCK_0__'' @ post)))
        \<and> CHR ''$'' \<notin> set frag \<longrightarrow>
        restoreCodeBlocks (pre @ ''__CODE_BLOCK_0__'' @ post) [frag] [] = pre @ frag @ post)"
proof (intro conjI allI impI)
  show "restoreCodeBlocks buf cbs ics =
     foldl (\<lambda>t (i, b). str_replace (''__INLINE_CODE_'' @ showNat i @ ''__'') b t)
       (foldl (\<lambda>t (i, b). str_replace (''__CODE_BLOCK_'' @ showNat i @ ''__'') b t) buf (enumerate 0 cbs))
       (enumerate 0 ics)"
    by (rule restoreCodeBlocks_foldl)
next
  assume "\<forall>k. \<not> prefix key (drop k s)"
  then show "str_replace key frag s = s"
    by (rule str_replace_absent)
next
  fix k
  assume "prefix key (drop k s) \<and> (\<forall>j<k. \<not> prefix key (drop j s))"
  then show "str_replace key frag s =
           take k s @ getSubstitution key (take k s) (drop (k + length key) s) [] frag
           @ drop (k + length key) s"
    using str_replace_first by blast
next
  assume "CHR ''$'' \<notin> set frag"
  then show "getSubstitution key p f [] frag = frag"
    by (rule getSubstitution_plain)
next
  assume "(\<forall>j<length pre. \<not> prefix ''__CODE_BLOCK_0__'' (drop j (pre @ ''__CODE_BLOCK_0__'' @ post)))
        \<and> CHR ''$'' \<notin> set frag"
  then show "restoreCodeBlocks (pre @ ''__CODE_BLOCK_0__'' @ post) [frag] [] = pre @ frag @ post"
    using restore_single_block by blast
qed

theorem C2_restore_by_first_occurrence_witness:
  "restoreCodeBlocks ''a __CODE_BLOCK_0__ b'' [''<pre><code>x</code></pre>''] []
     = ''a <pre><code>x</code></pre> b''
   \<and> str_replace ''__INLINE_CODE_1__'' ''<code>y</code>'' ''abc'' = ''abc''
   \<and> str_replace ''__INLINE_CODE_1__'' ''<code>y</code>'' ''a __INLINE_CODE_1__ __INLINE_CODE_1__''
       = ''a <code>y</code> __INLINE_CODE_1__''
   \<and> restoreCodeBlocks ''__INLINE_CODE_1__ __CODE_BLOCK_0__ __INLINE_CODE_0__ __INLINE_CODE_1__''
        [''<pre>x</pre>''] [''<code>y</code>'', ''<code>z</code>'']
       = ''<code>z</code> <pre>x</pre> <code>y</code> __INLINE_CODE_1__''"
proof -
  have least: "\<forall>j<length ''a ''. \<not> prefix ''__CODE_BLOCK_0__'' (drop j (''a '' @ ''__CODE_BLOCK_0__'' @ '' b''))"
  proof (intro allI impI)
    fix j :: nat
    assume "j < length ''a ''"
    then have "j = 0 \<or> j = Suc 0" by auto
    then show "\<not> prefix ''__CODE_BLOCK_0__'' (drop j (''a '' @ ''__CODE_BLOCK_0__'' @ '' b''))"
      by auto
  qed
  have plain: "CHR ''$'' \<notin> set ''<pre><code>x</code></pre>''" and plain': "CHR ''$'' \<notin> set ''<code>y</code>''"
    by simp_all
  have a: "restoreCodeBlocks (''a '' @ ''__CODE_BLOCK_0__'' @ '' b'') [''<pre><code>x</code></pre>''] []
             = ''a '' @ ''<pre><code>x</code></pre>'' @ '' b''"
    using C2_restore_by_first_occurrence [of _ _ _ _ _ "''<pre><code>x</code></pre>''" _ _ "''a ''" "'' b''"]
          least plain
    by blast
  have absent: "\<forall>k. \<not> prefix ''__INLINE_CODE_1__'' (drop k ''abc'')"
  proof
    fix k
    have "length (drop k ''abc'') < length ''__INLINE_CODE_1__''" by simp
    then show "\<not> prefix ''__INLINE_CODE_1__'' (drop k ''abc'')"
      using prefix_length_le by fastforce
  qed
  have b: "str_replace ''__INLINE_CODE_1__'' ''<code>y</code>'' ''abc'' = ''abc''"
    using C2_restore_by_first_occurrence [of _ _ _ "''__INLINE_CODE_1__''" "''abc''" "''<code>y</code>''"] absent
    by blast
  have first: "prefix ''__INLINE_CODE_1__'' (drop 2 ''a __INLINE_CODE_1__ __INLINE_CODE_1__'')
                 \<and> (\<forall>j<2. \<not> prefix ''__INLINE_CODE_1__'' (drop j ''a __INLINE_CODE_1__ __INLINE_CODE_1__''))"
  proof (intro conjI allI impI)
    show "prefix ''__INLINE_CODE_1__'' (drop 2 ''a __INLINE_CODE_1__ __INLINE_CODE_1__'')"
      by (simp add: numeral_2_eq_2)
  next
    fix j :: nat
    assume "j < 2"
    then have "j = 0 \<or> j = Suc 0" by auto
    then show "\<not> prefix ''__INLINE_CODE_1__'' (drop j ''a __INLINE_CODE_1__ __INLINE_CODE_1__'')"
      by auto
  qed
  have c: "str_replace ''__INLINE_CODE_1__'' ''<code>y</code>'' ''a __INLINE_CODE_1__ __INLINE_CODE_1__''
       = take 2 ''a __INLINE_CODE_1__ __INLINE_CODE_1__''
         @ getSubstitution ''__INLINE_CODE_1__'' (take 2 ''a __INLINE_CODE_1__ __INLINE_CODE_1__'')
             (drop (2 + length ''__INLINE_CODE_1__'') ''a __INLINE_CODE_1__ __INLINE_CODE_1__'') []
             ''<code>y</code>''
         @ drop (2 + length ''__INLINE_CODE_1__'') ''a __INLINE_CODE_1__ __INLINE_CODE_1__''"
    using C2_restore_by_first_occurrence
            [of _ _ _ "''__INLINE_CODE_1__''" "''a __INLINE_CODE_1__ __INLINE_CODE_1__''" "''<code>y</code>''"]
          first
    by blast
  have c': "getSubstitution ''__INLINE_CODE_1__'' (take 2 ''a __INLINE_CODE_1__ __INLINE_CODE_1__'')
             (drop (2 + length ''__INLINE_CODE_1__'') ''a __INLINE_CODE_1__ __INLINE_CODE_1__'') []
             ''<code>y</code>'' = ''<code>y</code>''"
    using C2_restore_by_first_occurrence [of _ _ _ "''__INLINE_CODE_1__''" _ "''<code>y</code>''"] plain'
    by blast
  have d: "restoreCodeBlocks ''__INLINE_CODE_1__ __CODE_BLOCK_0__ __INLINE_CODE_0__ __INLINE_CODE_1__''
        [''<pre>x</pre>''] [''<code>y</code>'', ''<code>z</code>'']
       = foldl (\<lambda>t (i, b). str_replace (''__INLINE_CODE_'' @ showNat i @ ''__'') b t)
           (foldl (\<lambda>t (i, b). str_replace (''__CODE_BLOCK_'' @ showNat i @ ''__'') b t)
              ''__INLINE_CODE_1__ __CODE_BLOCK_0__ __INLINE_CODE_0__ __INLINE_CODE_1__''
              (enumerate 0 [''<pre>x</pre>'']))
           (enumerate 0 [''<code>y</code>'', ''<code>z</code>''])"
    using C2_restore_by_first_occurrence by blast
  have d': "foldl (\<lambda>t (i, b). str_replace (''__INLINE_CODE_'' @ showNat i @ ''__'') b t)
           (foldl (\<lambda>t (i, b). str_replace (''__CODE_BLOCK_'' @ showNat i @ ''__'') b t)
              ''__INLINE_CODE_1__ __CODE_BLOCK_0__ __INLINE_CODE_0__ __INLINE_CODE_1__''
              (enumerate 0 [''<pre>x</pre>'']))
           (enumerate 0 [''<code>y</code>'', ''<code>z</code>''])
          = ''<code>z</code> <pre>x</pre> <code>y</code> __INLINE_CODE_1__''"
    by code_simp
  show ?thesis
    using a b c d unfolding c' d' by simp
qed

text \<open>
  Claim C2, as stated, fails: in \<open>**__CODE_BLOCK_0__ ```x```**\<close> the user wrote the text
  of the key before the fenced block. After protection the buffer holds the key twice;
  restoration puts the stored fragment where the user's text was and leaves the real
  placeholder in the output.
\<close>

theorem C2_placeholder_collision_counterexample:
  "protectCodeBlocks ''**__CODE_BLOCK_0__ ```x```**'' [] []
     = (''**__CODE_BLOCK_0__ __CODE_BLOCK_0__**'', [''<pre><code>x</code></pre>''], [])
   \<and> convertMarkdownToHTML ''**__CODE_BLOCK_0__ ```x```**''
       = ''<p><strong><pre><code>x</code></pre> __CODE_BLOCK_0__</strong></p>''"
  by code_simp

section \<open>The failure boundary\<close>















section \<open>Whitespace-only input\<close>

lemma replace_from_blank:
  "needsInk fl r \<Longrightarrow> blank rs \<Longrightarrow> replace_from fl r f sn rs = rs"
proof (induction rs arbitrary: sn)
  case Nil
  then show ?case by (subst replace_from.simps) (simp add: match_at_needsInk)
next
  case (Cons c cs)
  then show ?case by (subst replace_from.simps) (simp add: match_at_needsInk blank_Cons)
qed

lemma replace_all_blank: "needsInk fl r \<Longrightarrow> blank s \<Longrightarrow> replace_all fl r f s = s"
  by (simp add: replace_all_def replace_from_blank)

lemma replace_st_blank:
  "needsInk fl r \<Longrightarrow> blank rs \<Longrightarrow> replace_st fl r f a sn rs = (rs, a)"
proof (induction rs arbitrary: sn)
  case Nil
  then show ?case by (subst replace_st.simps) (simp add: match_at_needsInk)
next
  case (Cons c cs)
  then show ?case by (subst replace_st.simps) (simp add: match_at_needsInk blank_Cons)
qed

lemma replace_first_blank: "needsInk fl r \<Longrightarrow> blank s \<Longrightarrow> replace_first fl r f s = s"
  by (simp add: replace_first_def scan_needsInk)

lemma match_at_suffix: "match_at fl r sn rs = Some st \<Longrightarrow> suffix (rest st) rs"
proof -
  assume a: "match_at fl r sn rs = Some st"
  then have "st \<in> set (ms fl r \<lparr>seen = sn, rest = rs, caps = []\<rparr>)"
    by (auto simp: match_at_def split: list.splits)
  from ms_suffix [OF this] show ?thesis by simp
qed

lemma blank_append: "blank (a @ b) \<longleftrightarrow> blank a \<and> blank b"
  by (simp add: blank_def)

lemma replace_from_keeps_blank:
  "blank rs \<Longrightarrow> (\<And>m cp p q. blank (f m cp p q)) \<Longrightarrow> blank (replace_from fl r f sn rs)"
proof (induction fl r f sn rs rule: replace_from.induct)
  case (1 fl r f sn rs)
  show ?case
  proof (cases "match_at fl r sn rs")
    case None
    show ?thesis
    proof (cases rs)
      case Nil
      with None show ?thesis by (subst replace_from.simps) (simp add: blank_def)
    next
      case (Cons c cs)
      with "1.prems" have c: "isSpace c" and cs: "blank cs" by (simp_all add: blank_Cons)
      from "1.IH"(1) [OF None Cons cs "1.prems"(2)] None Cons c show ?thesis
        by (subst replace_from.simps) (simp add: blank_Cons)
    qed
  next
    case (Some st)
    from match_at_suffix [OF Some] "1.prems"(1) have bst: "blank (rest st)"
      using blank_suffix by blast
    have out: "blank (apply_repl f sn rs st)"
      by (simp add: apply_repl_def "1.prems"(2))
    show ?thesis
    proof (cases "length (rest st) < length rs")
      case True
      from "1.IH"(2) [OF Some True bst "1.prems"(2)] Some True out show ?thesis
        by (subst replace_from.simps) (simp add: blank_append)
    next
      case False
      show ?thesis
      proof (cases rs)
        case Nil
        with Some False out show ?thesis by (subst replace_from.simps) simp
      next
        case (Cons c cs)
        with "1.prems" have c: "isSpace c" and cs: "blank cs" by (simp_all add: blank_Cons)
        from "1.IH"(3) [OF Some False Cons cs "1.prems"(2)] Some False Cons c out show ?thesis
          by (subst replace_from.simps) (simp add: blank_append blank_Cons)
      qed
    qed
  qed
qed

lemma tmpl_plain: "CHR ''$'' \<notin> set t \<Longrightarrow> tmpl n t m cp p q = t"
  by (simp add: tmpl_def getSubstitution_plain)

lemma replace_all_keeps_blank:
  "blank s \<Longrightarrow> blank t \<Longrightarrow> CHR ''$'' \<notin> set t \<Longrightarrow> blank (replace_all fl r (tmpl n t) s)"
  unfolding replace_all_def by (rule replace_from_keeps_blank) (simp_all add: tmpl_plain)

lemma split_from_blank:
  "blank rs \<Longrightarrow> blank piece \<Longrightarrow> \<forall>b \<in> set (split_from fl r piece sn rs). blank b"
proof (induction fl r piece sn rs rule: split_from.induct)
  case (1 fl r piece sn rs)
  show ?case
  proof (cases rs)
    case Nil
    with "1.prems" show ?thesis by (subst split_from.simps) (simp add: blank_def)
  next
    case (Cons c cs)
    with "1.prems" have c: "isSpace c" and cs: "blank cs" by (simp_all add: blank_Cons)
    have pc: "blank (c # piece)" using c "1.prems"(2) by (simp add: blank_Cons)
    have rp: "blank (rev piece)" using "1.prems"(2) by (simp add: blank_def)
    show ?thesis
    proof (cases "match_at fl r sn rs")
      case None
      from "1.IH"(1) [OF Cons None cs pc] None Cons show ?thesis
        by (subst split_from.simps) simp
    next
      case (Some st)
      from match_at_suffix [OF Some] "1.prems"(1) have bst: "blank (rest st)"
        using blank_suffix by blast
      show ?thesis
      proof (cases "length (rest st) < length rs")
        case True
        have "blank []" by (simp add: blank_def)
        from "1.IH"(2) [OF Cons Some True bst this] Some True Cons rp show ?thesis
          by (subst split_from.simps) simp
      next
        case False
        show ?thesis
        proof (cases "piece = []")
          case True
          from "1.IH"(3) [OF Cons Some False True cs pc] Some False Cons True show ?thesis
            by (subst split_from.simps) simp
        next
          case F2: False
          have "blank []" by (simp add: blank_def)
          from "1.IH"(4) [OF Cons Some False F2 "1.prems"(1) this] Some False Cons F2 rp show ?thesis
            by (subst split_from.simps) simp
        qed
      qed
    qed
  qed
qed

lemma split_re_blank: "blank s \<Longrightarrow> \<forall>b \<in> set (split_re fl r s). blank b"
  using split_from_blank [of s "[]" fl r "[]"] by (simp add: split_re_def blank_def)

lemma split_on_nonempty: "split_on d s \<noteq> []"
  by (induction s) (auto split: list.splits)

lemma join_split_on: "join [d] (split_on d s) = s"
proof (induction s)
  case Nil
  show ?case by simp
next
  case (Cons c cs)
  obtain l ls where sp: "split_on d cs = l # ls"
    using split_on_nonempty [of d cs] by (cases "split_on d cs") auto
  with Cons show ?case by (cases ls) auto
qed

lemma split_on_blank: "blank s \<Longrightarrow> \<forall>l \<in> set (split_on d s). blank l"
proof (induction s)
  case Nil
  show ?case by (simp add: blank_def)
next
  case (Cons c cs)
  then have c: "isSpace c" and ih: "\<forall>l \<in> set (split_on d cs). blank l"
    by (simp_all add: blank_Cons)
  obtain l ls where sp: "split_on d cs = l # ls"
    using split_on_nonempty [of d cs] by (cases "split_on d cs") auto
  with ih c show ?case by (auto simp: blank_Cons blank_def)
qed

lemma walk_blank:
  "\<forall>l \<in> set ls. blank l \<Longrightarrow> walk lines levels i ls (listStack, result) = (listStack, result @ ls)"
  by (induction ls arbitrary: i result) (simp_all add: listStep_blank trim_Nil_blank)

lemma processLists_blank: "blank s \<Longrightarrow> processLists s = s"
  by (simp add: processLists_def Let_def walk_blank split_on_blank join_split_on)

lemma processBlock_blank: "blank b \<Longrightarrow> processBlock b = []"
  by (simp add: processBlock_def trim_Nil_blank [symmetric])

lemma processParagraphs_blank: "blank s \<Longrightarrow> processParagraphs s = []"
proof -
  assume "blank s"
  then have "\<forall>b \<in> set (split_re noflags blankRe s). processBlock b = []"
    using split_re_blank processBlock_blank by blast
  then have c: "concat (map processBlock (split_re noflags blankRe s)) = []"
    by simp
  show ?thesis
    unfolding processParagraphs_def Let_def c by simp
qed

lemma ink_normalize: "needsInk fl_s quoteRe"
  by code_simp

lemma ink_protect: "needsInk noflags fenceRe" "needsInk noflags inlineRe"
  by code_simp+

lemma ink_headers: "needsInk fl_m atxRe" "needsInk fl_m bulletAtxRe"
  "needsInk fl_m (setextRe (CHR ''=''))" "needsInk fl_m (setextRe (CHR ''-''))"
  by code_simp+

lemma ink_formatting: "needsInk noflags dquoteRe" "needsInk noflags boldRe"
  "needsInk noflags italicRe" "needsInk noflags strikeRe"
  by code_simp+

lemma ink_quotes: "needsInk fl_m quoteLineRe" "needsInk noflags quoteJoinRe"
  by code_simp+

lemma ink_rule: "needsInk fl_m ruleRe"
  by code_simp

lemma ink_links: "needsInk noflags imageRe" "needsInk noflags linkRe" "needsInk noflags autolinkRe"
  by code_simp+

lemma normalizeContent_blank: "blank s \<Longrightarrow> blank (normalizeContent s)"
proof -
  assume b: "blank s"
  have n: "blank [nl]" "CHR ''$'' \<notin> set [nl]" "blank []"
    by (simp_all add: blank_def nl_def isSpace_def)
  have b1: "stripQuotes s = s"
    using b by (simp add: stripQuotes_def replace_first_blank ink_normalize)
  have b2: "blank (replace_all noflags (Lit [cr, nl]) (tmpl 0 [nl]) s)"
    using b n by (simp add: replace_all_keeps_blank)
  have b3: "blank (replace_all noflags (Lit [cr]) (tmpl 0 [nl])
                     (replace_all noflags (Lit [cr, nl]) (tmpl 0 [nl]) s))"
    using b2 n by (simp add: replace_all_keeps_blank)
  have "blank (replace_all fl_m trailingRe (tmpl 0 [])
                 (replace_all noflags (Lit [cr]) (tmpl 0 [nl])
                     (replace_all noflags (Lit [cr, nl]) (tmpl 0 [nl]) s)))"
    using b3 n by (simp add: replace_all_keeps_blank)
  then show ?thesis
    by (simp add: normalizeContent_def Let_def b1)
qed

lemma protectCodeBlocks_blank: "blank s \<Longrightarrow> protectCodeBlocks s [] [] = (s, [], [])"
  by (simp add: protectCodeBlocks_def replace_st_blank ink_protect)

lemma processHeaders_blank: "blank s \<Longrightarrow> processHeaders s = s"
  by (simp add: processHeaders_def Let_def replace_all_blank ink_headers)

lemma processTextFormatting_blank: "blank s \<Longrightarrow> processTextFormatting s = s"
  by (simp add: processTextFormatting_def Let_def replace_all_blank ink_formatting)

lemma processBlockquotes_blank: "blank s \<Longrightarrow> processBlockquotes s = s"
  by (simp add: processBlockquotes_def Let_def replace_all_blank ink_quotes)

lemma processHorizontalRules_blank: "blank s \<Longrightarrow> processHorizontalRules s = s"
  by (simp add: processHorizontalRules_def replace_all_blank ink_rule)

lemma processLinksAndImages_blank: "blank s \<Longrightarrow> processLinksAndImages s = s"
  by (simp add: processLinksAndImages_def Let_def replace_all_blank ink_links)

lemma finalCleanup_empty: "finalCleanup [] = []"
  by code_simp

text \<open>
  Claim C10. For every input that consists of whitespace characters only (the empty
  string included), \<open>convertMarkdownToHTML\<close> returns the empty string.
\<close>

theorem C10_blank_input_gives_empty_output:
  assumes "blank markdown"
  shows "convertMarkdownToHTML markdown = []"
proof -
  let ?n = "normalizeContent markdown"
  have n: "blank ?n" using assms by (rule normalizeContent_blank)
  have "runStages parserStages \<lparr>html = markdown, codeBlocks = [], inlineCode = []\<rparr>
          = Inr \<lparr>html = [], codeBlocks = [], inlineCode = []\<rparr>"
    by (simp add: parserStages_def onHtml_def protectStage_def restoreStage_def
                  protectCodeBlocks_blank [OF n] processHeaders_blank [OF n]
                  processTextFormatting_blank [OF n] processBlockquotes_blank [OF n]
                  processLists_blank [OF n] processHorizontalRules_blank [OF n]
                  processLinksAndImages_blank [OF n] restoreCodeBlocks_def
                  processParagraphs_blank [OF n] finalCleanup_empty)
  then show ?thesis
    by (simp add: convertMarkdownToHTML_def tryCatch_def)
qed

theorem C10_blank_input_gives_empty_output_witness:
  "convertMarkdownToHTML '' \<newline>  '' = [] \<and> convertMarkdownToHTML [] = []"
proof -
  have h1: "blank '' \<newline>  ''" and h2: "blank []"
    by (simp_all add: blank_def isSpace_def)
  show ?thesis
    using C10_blank_input_gives_empty_output [OF h1] C10_blank_input_gives_empty_output [OF h2]
    by simp
qed

section \<open>Claims settled by evaluation\<close>

text \<open>
  Claim C1. The content of an inline code span or a fenced code block should reach the
  output escaped inside \<open><code>\<close>, untouched by the passes that run after protection.
  The placeholder \<open>__INLINE_CODE_0__\<close> that stands for the span is itself bold syntax
  (\<open>__ ... __\<close>) with an italic span (\<open>_CODE_\<close>) inside: the formatting pass rewrites
  it, the restoring pass no longer finds its key, and the code content never reaches the
  output. The same happens to \<open>__CODE_BLOCK_0__\<close>. Here the code is evaluated on the line
  \<open>a `<b>` c\<close>, and on a fenced block with the line \<open>* not a list *\<close> between two lines
  of text.
\<close>

theorem C1_code_content_lost:
  "convertMarkdownToHTML ''a `<b>` c'' = ''<p>a <strong>INLINE<em>CODE</em>0</strong> c</p>''
   \<and> convertMarkdownToHTML ''x\<newline>```\<newline>* not a list *\<newline>```\<newline>y''
       = ''<p>x<br><strong>CODE<em>BLOCK</em>0</strong><br>y</p>''"
  by code_simp

text \<open>
  Claim C3. The three lines \<open>a. First\<close>, \<open>b. Second\<close>, \<open>c. Third\<close> should become three
  items of one ordered list. \<open>adjustListStack\<close> compares the number of open lists (1 after
  the first item) with the nesting depth of the next item (0), so it closes the list and
  opens a new one for every item of depth 0: the output has three lists of one item.
\<close>

theorem C3_three_lists:
  "convertMarkdownToHTML ''a. First\<newline>b. Second\<newline>c. Third'' =
   ''<ol><li>First</li></ol><ol><li>Second</li></ol><ol><li>Third</li></ol>''"
  by code_simp

end
